theory Spec2Isabelle
  imports Main "HOL-Library.Sublist"
begin

section \<open>Texts\<close>

text \<open>
  A Python \<open>str\<close> is modelled as a \<open>string\<close>; a \<open>char\<close> stands for a code point below
  256, and the character classes below are Python's on that range.
\<close>

definition code_point :: "char \<Rightarrow> nat" where
  "code_point c = of_char c"

text \<open>\<open>str.lower\<close>, one character at a time.\<close>

definition lower_char :: "char \<Rightarrow> char" where
  "lower_char c =
     (if (65 \<le> code_point c \<and> code_point c \<le> 90) \<or> (192 \<le> code_point c \<and> code_point c \<le> 222 \<and> code_point c \<noteq> 215)
      then char_of (code_point c + 32) else c)"

definition lower :: "string \<Rightarrow> string" where
  "lower s = map lower_char s"

text \<open>\<open>str.isspace\<close>, which is also the class \<open>\s\<close> of \<open>re\<close>.\<close>

definition is_space :: "char \<Rightarrow> bool" where
  "is_space c = ((9 \<le> code_point c \<and> code_point c \<le> 13) \<or> (28 \<le> code_point c \<and> code_point c \<le> 32)
                 \<or> code_point c = 133 \<or> code_point c = 160)"

text \<open>\<open>str.strip()\<close> with no argument.\<close>

definition strip :: "string \<Rightarrow> string" where
  "strip s = rev (dropWhile is_space (rev (dropWhile is_space s)))"

text \<open>\<open>sub in s\<close> on strings.\<close>

fun contains :: "string \<Rightarrow> string \<Rightarrow> bool" where
  "contains sub [] = (sub = [])"
| "contains sub (c # cs) = (prefix sub (c # cs) \<or> contains sub cs)"

text \<open>\<open>s.split('\n')\<close>: the pieces between line feeds, at least one piece.\<close>

fun split_lines :: "string \<Rightarrow> string list" where
  "split_lines [] = [[]]"
| "split_lines (c # cs) =
     (if c = CHR 0x0A then [] # split_lines cs
      else (case split_lines cs of l # ls \<Rightarrow> (c # l) # ls | [] \<Rightarrow> [[c]]))"

section \<open>Syntax trees\<close>

text \<open>What the code reads of a tree-sitter node; \<open>ts_text\<close> is the node's text, decoded.\<close>

datatype ts_node =
  TSNode (ts_type: string) (ts_start_row: int) (ts_end_row: int)
         (ts_text: "string option") (ts_children: "ts_node list")

text \<open>
  The dictionaries \<open>tree_to_dict\<close> builds: a full node, or the sentinel
  \<open>{"type": "max_depth_reached"}\<close>, which has no other key.
\<close>

datatype ast =
  Node string string int int string "ast list"
| Max_depth_reached

text \<open>\<open>node.get(key, default)\<close> for the keys the code reads.\<close>

fun get_type :: "ast \<Rightarrow> string" where
  "get_type (Node i ty s e t cs) = ty"
| "get_type Max_depth_reached = ''max_depth_reached''"

fun get_text :: "ast \<Rightarrow> string" where
  "get_text (Node i ty s e t cs) = t"
| "get_text Max_depth_reached = ''''"

fun get_start_line :: "ast \<Rightarrow> int" where
  "get_start_line (Node i ty s e t cs) = s"
| "get_start_line Max_depth_reached = 0"

fun get_children :: "ast \<Rightarrow> ast list" where
  "get_children (Node i ty s e t cs) = cs"
| "get_children Max_depth_reached = []"

text \<open>
  \<open>tree_to_dict\<close>. The identifiers come from \<open>uuid.uuid4()\<close>; \<open>uuid\<close> gives the one drawn
  at each position of the tree (the path of child indices from the root).
\<close>

function tree_to_dict :: "(nat list \<Rightarrow> string) \<Rightarrow> nat list \<Rightarrow> ts_node \<Rightarrow> nat \<Rightarrow> nat \<Rightarrow> ast" where
  "tree_to_dict uuid path (TSNode ty s e t cs) max_depth current_depth =
     (if current_depth > max_depth then Max_depth_reached
      else Node (take 8 (uuid path)) ty s e
             (case t of Some txt \<Rightarrow> take 100 txt | None \<Rightarrow> '''')
             (if length cs > 0 \<and> current_depth < max_depth
              then map (\<lambda>(i, child). tree_to_dict uuid (path @ [i]) child max_depth (current_depth + 1))
                     (enumerate 0 (take 20 cs))
              else []))"
  by pat_completeness auto
termination
proof (relation "measure (\<lambda>(uuid, path, node, mx, cur). size node)", goal_cases)
  case 1
  show ?case by simp
next
  case (2 uuid path ty s e t cs mx cur x i child)
  from 2 have "(i, child) \<in> set (enumerate 0 (take 20 cs))" by simp
  then have "child \<in> set (take 20 cs)"
    by (auto simp: in_set_enumerate_eq intro!: nth_mem)
  then have "child \<in> set cs" by (rule in_set_takeD)
  then have "size child < Suc (size_list size cs)"
    by (simp add: less_Suc_eq_le size_list_estimation')
  then show ?case by simp
qed

section \<open>The semantic summary\<close>

record entry =
  name :: string
  line :: int

record semantic =
  classes :: "entry list"
  methods :: "entry list"
  properties :: "entry list"
  imports' :: "entry list"

definition make_entry :: "ast \<Rightarrow> entry" where
  "make_entry node = \<lparr>name = take 50 (get_text node), line = get_start_line node\<rparr>"

text \<open>The \<open>if\<close>/\<open>elif\<close> chain of \<open>traverse\<close>, before it descends.\<close>

definition visit :: "ast \<Rightarrow> semantic \<Rightarrow> semantic" where
  "visit node sem =
     (let node_type = get_type node in
      if contains ''class'' (lower node_type)
      then sem\<lparr>classes := classes sem @ [make_entry node]\<rparr>
      else if contains ''method'' (lower node_type) \<or> contains ''function'' (lower node_type)
      then sem\<lparr>methods := methods sem @ [make_entry node]\<rparr>
      else if contains ''property'' (lower node_type) \<or> contains ''field'' (lower node_type)
      then sem\<lparr>properties := properties sem @ [make_entry node]\<rparr>
      else sem)"

fun traverse :: "ast \<Rightarrow> semantic \<Rightarrow> semantic" where
  "traverse (Node i ty s e t cs) sem = fold traverse cs (visit (Node i ty s e t cs) sem)"
| "traverse Max_depth_reached sem = visit Max_depth_reached sem"

definition build_semantic_tree :: "ast \<Rightarrow> semantic" where
  "build_semantic_tree ast_data =
     traverse ast_data \<lparr>classes = [], methods = [], properties = [], imports' = []\<rparr>"

section \<open>Regular expressions\<close>

text \<open>
  The part of Python's \<open>re\<close> that the rule tables use: a backtracking matcher that tries
  the alternatives in the order \<open>re\<close> does and stops at the first success.
\<close>

text \<open>\<open>\w\<close>: alphanumeric or underscore.\<close>

definition is_word :: "char \<Rightarrow> bool" where
  "is_word c =
     ((48 \<le> code_point c \<and> code_point c \<le> 57) \<or> (65 \<le> code_point c \<and> code_point c \<le> 90) \<or> code_point c = 95
      \<or> (97 \<le> code_point c \<and> code_point c \<le> 122) \<or> code_point c = 170 \<or> code_point c = 178 \<or> code_point c = 179
      \<or> code_point c = 181 \<or> code_point c = 185 \<or> code_point c = 186 \<or> (188 \<le> code_point c \<and> code_point c \<le> 190)
      \<or> (192 \<le> code_point c \<and> code_point c \<le> 214) \<or> (216 \<le> code_point c \<and> code_point c \<le> 246)
      \<or> 248 \<le> code_point c)"

datatype cclass = Lit char | Any_char | Word | Space | Word_or_space

datatype rx =
  Chr cclass
| Rep cclass nat bool
| Bnd
| Eol
| Eps
| Seq rx rx
| Alt rx rx
| Grp nat rx
| Look rx

record flags =
  ignorecase :: bool
  multiline :: bool
  dotall :: bool

definition no_flags :: flags where
  "no_flags = \<lparr>ignorecase = False, multiline = False, dotall = False\<rparr>"

fun cmatch :: "flags \<Rightarrow> cclass \<Rightarrow> char \<Rightarrow> bool" where
  "cmatch f (Lit p) c = (if ignorecase f then lower_char c = lower_char p else c = p)"
| "cmatch f Any_char c = (dotall f \<or> c \<noteq> CHR 0x0A)"
| "cmatch f Word c = is_word c"
| "cmatch f Space c = is_space c"
| "cmatch f Word_or_space c = (is_word c \<or> is_space c)"

text \<open>
  A position in the subject: the character before it (if any), the text from it on, and the
  groups captured so far, the latest first.
\<close>

type_synonym mstate = "char option \<times> string \<times> (nat \<times> string) list"

text \<open>\<open>\b\<close>: exactly one side of the position is a word character.\<close>

fun at_boundary :: "mstate \<Rightarrow> bool" where
  "at_boundary (prev, rest, caps) =
     ((case prev of None \<Rightarrow> False | Some c \<Rightarrow> is_word c)
      \<noteq> (case rest of [] \<Rightarrow> False | c # cs \<Rightarrow> is_word c))"

text \<open>\<open>$\<close>: the end of the text, or of a line with \<open>MULTILINE\<close>, else before a final line feed.\<close>

fun at_eol :: "flags \<Rightarrow> mstate \<Rightarrow> bool" where
  "at_eol f (prev, rest, caps) =
     (case rest of [] \<Rightarrow> True | c # cs \<Rightarrow> c = CHR 0x0A \<and> (multiline f \<or> cs = []))"

text \<open>\<open>c+\<close>, \<open>c*\<close> (greedy) and \<open>c+?\<close> (lazy) on one character class, at least \<open>n\<close> times.\<close>

fun rep_greedy :: "(char \<Rightarrow> bool) \<Rightarrow> nat \<Rightarrow> (mstate \<Rightarrow> mstate option) \<Rightarrow>
    char option \<Rightarrow> string \<Rightarrow> (nat \<times> string) list \<Rightarrow> mstate option" where
  "rep_greedy p n k prev [] caps = (if n = 0 then k (prev, [], caps) else None)"
| "rep_greedy p n k prev (x # xs) caps =
     (if p x
      then (case rep_greedy p (n - 1) k (Some x) xs caps of
              Some r \<Rightarrow> Some r
            | None \<Rightarrow> if n = 0 then k (prev, x # xs, caps) else None)
      else if n = 0 then k (prev, x # xs, caps) else None)"

fun rep_lazy :: "(char \<Rightarrow> bool) \<Rightarrow> nat \<Rightarrow> (mstate \<Rightarrow> mstate option) \<Rightarrow>
    char option \<Rightarrow> string \<Rightarrow> (nat \<times> string) list \<Rightarrow> mstate option" where
  "rep_lazy p n k prev [] caps = (if n = 0 then k (prev, [], caps) else None)"
| "rep_lazy p n k prev (x # xs) caps =
     (case (if n = 0 then k (prev, x # xs, caps) else None) of
        Some r \<Rightarrow> Some r
      | None \<Rightarrow> if p x then rep_lazy p (n - 1) k (Some x) xs caps else None)"

text \<open>
  \<open>m r f k st\<close> matches \<open>r\<close> at \<open>st\<close> and hands the position after it to \<open>k\<close>; when \<open>k\<close>
  fails there, the next way of matching \<open>r\<close> is tried.
\<close>

primrec m :: "rx \<Rightarrow> flags \<Rightarrow> (mstate \<Rightarrow> mstate option) \<Rightarrow> mstate \<Rightarrow> mstate option" where
  "m (Chr c) f k =
     (\<lambda>(prev, rest, caps). case rest of [] \<Rightarrow> None
        | x # xs \<Rightarrow> if cmatch f c x then k (Some x, xs, caps) else None)"
| "m (Rep c n greedy) f k =
     (\<lambda>(prev, rest, caps).
        if greedy then rep_greedy (cmatch f c) n k prev rest caps
        else rep_lazy (cmatch f c) n k prev rest caps)"
| "m Bnd f k = (\<lambda>st. if at_boundary st then k st else None)"
| "m Eol f k = (\<lambda>st. if at_eol f st then k st else None)"
| "m Eps f k = k"
| "m (Seq a b) f k = m a f (m b f k)"
| "m (Alt a b) f k = (\<lambda>st. case m a f k st of Some r \<Rightarrow> Some r | None \<Rightarrow> m b f k st)"
| "m (Grp i a) f k =
     (\<lambda>(prev, rest, caps).
        m a f (\<lambda>(prev', rest', caps').
                 k (prev', rest', (i, take (length rest - length rest') rest) # caps'))
          (prev, rest, caps))"
| "m (Look a) f k =
     (\<lambda>(prev, rest, caps). case m a f Some (prev, rest, caps) of
        None \<Rightarrow> None
      | Some (prev', rest', caps') \<Rightarrow> k (prev, rest, caps'))"

text \<open>
  One attempt at one position: the length of the match and its groups. With
  \<open>must_advance\<close> an empty match is refused, as \<open>re\<close> does right after an empty match.
\<close>

definition match_here :: "rx \<Rightarrow> flags \<Rightarrow> bool \<Rightarrow> char option \<Rightarrow> string \<Rightarrow>
    (nat \<times> (nat \<times> string) list) option" where
  "match_here r f must_advance prev s =
     (case m r f (\<lambda>(prev', rest', caps').
                    if must_advance \<and> length rest' = length s then None
                    else Some (prev', rest', caps')) (prev, s, [])
      of None \<Rightarrow> None
       | Some (prev', rest', caps') \<Rightarrow> Some (length s - length rest', caps'))"

text \<open>Replacement templates: literal text and group references \<open>\1\<close>, \<open>\2\<close>, ...\<close>

datatype titem = TLit string | TGrp nat

fun expand_item :: "(nat \<times> string) list \<Rightarrow> titem \<Rightarrow> string" where
  "expand_item caps (TLit s) = s"
| "expand_item caps (TGrp i) = (case map_of caps i of Some t \<Rightarrow> t | None \<Rightarrow> [])"

definition expand :: "titem list \<Rightarrow> (nat \<times> string) list \<Rightarrow> string" where
  "expand tpl caps = concat (map (expand_item caps) tpl)"

text \<open>
  \<open>re.sub(pattern, repl, string, flags)\<close>: the leftmost match is replaced, and the search
  goes on after it. After an empty match the same position is tried once more for a
  non-empty one, then the next character is copied.
\<close>

function re_sub_from :: "rx \<Rightarrow> flags \<Rightarrow> titem list \<Rightarrow> bool \<Rightarrow> char option \<Rightarrow> string \<Rightarrow> string" where
  "re_sub_from r f tpl must_advance prev [] =
     (case match_here r f must_advance prev [] of
        None \<Rightarrow> []
      | Some (n, caps) \<Rightarrow> expand tpl caps)"
| "re_sub_from r f tpl must_advance prev (x # xs) =
     (case match_here r f must_advance prev (x # xs) of
        None \<Rightarrow> x # re_sub_from r f tpl False (Some x) xs
      | Some (n, caps) \<Rightarrow>
          if n = 0
          then (if must_advance then x # re_sub_from r f tpl False (Some x) xs
                else expand tpl caps @ re_sub_from r f tpl True prev (x # xs))
          else expand tpl caps
               @ re_sub_from r f tpl False (Some (last (take n (x # xs)))) (drop n (x # xs)))"
  by pat_completeness auto
termination
  by (relation "measure (\<lambda>(r, f, tpl, ma, prev, s). 2 * length s + (if ma then 0 else 1))") auto

definition re_sub :: "rx \<Rightarrow> titem list \<Rightarrow> string \<Rightarrow> flags \<Rightarrow> string" where
  "re_sub pattern repl s f = re_sub_from pattern f repl False None s"

text \<open>Writing patterns: a literal text, and a sequence of parts.\<close>

definition lit :: "string \<Rightarrow> rx" where
  "lit s = foldr (\<lambda>c r. Seq (Chr (Lit c)) r) s Eps"

definition seqs :: "rx list \<Rightarrow> rx" where
  "seqs rs = foldr Seq rs Eps"

section \<open>The rewrite rules\<close>

text \<open>Shorthands for the pieces the patterns are made of.\<close>

definition spaces1 :: rx where
  "spaces1 = Rep Space 1 True"

definition spaces0 :: rx where
  "spaces0 = Rep Space 0 True"

definition word_grp :: "nat \<Rightarrow> rx" where
  "word_grp i = Grp i (Rep Word 1 True)"

definition any_grp :: "nat \<Rightarrow> rx" where
  "any_grp i = Grp i (Rep Any_char 1 True)"

definition any_lazy_grp :: "nat \<Rightarrow> rx" where
  "any_lazy_grp i = Grp i (Rep Any_char 1 False)"

text \<open>The loop \<open>for pattern, replacement in table: result = re.sub(...)\<close>.\<close>

definition apply_rules :: "(rx \<times> titem list) list \<Rightarrow> flags \<Rightarrow> string \<Rightarrow> string" where
  "apply_rules table f s = fold (\<lambda>(pattern, replacement) result. re_sub pattern replacement result f) table s"

subsection \<open>VB6 to VB.NET\<close>

definition vb_replacements :: "(rx \<times> titem list) list" where
  "vb_replacements =
    [(seqs [Bnd, lit ''Dim'', spaces1, word_grp 1, spaces1, lit ''As'', spaces1, lit ''Integer'', Bnd],
        [TLit ''Dim '', TGrp 1, TLit '' As Integer'']),
     (seqs [Bnd, lit ''Dim'', spaces1, word_grp 1, spaces1, lit ''As'', spaces1, lit ''String'', Bnd],
        [TLit ''Dim '', TGrp 1, TLit '' As String'']),
     (seqs [Bnd, lit ''Sub'', spaces1, lit ''Main()''], [TLit ''Sub Main()'']),
     (seqs [Bnd, lit ''End Sub'', Bnd], [TLit ''End Sub'']),
     (seqs [Bnd, lit ''End Function'', Bnd], [TLit ''End Function'']),
     (seqs [Bnd, lit ''Public Sub'', Bnd], [TLit ''Public Sub'']),
     (seqs [Bnd, lit ''Private Sub'', Bnd], [TLit ''Private Sub''])]"

definition transpile_vb_to_vbnet :: "string \<Rightarrow> string" where
  "transpile_vb_to_vbnet code = apply_rules vb_replacements no_flags code"

subsection \<open>VB.NET to C#\<close>

definition vbnet_conversions :: "(rx \<times> titem list) list" where
  "vbnet_conversions =
    [(lit [CHR 0x27], [TLit ''//'']),
     (seqs [Bnd, lit ''Public Class '', word_grp 1], [TLit ''public class '', TGrp 1, TLit '' {'']),
     (seqs [Bnd, lit ''Private Class '', word_grp 1], [TLit ''private class '', TGrp 1, TLit '' {'']),
     (seqs [Bnd, lit ''Class '', word_grp 1], [TLit ''class '', TGrp 1, TLit '' {'']),
     (seqs [Bnd, lit ''End Class'', Bnd], [TLit ''}'']),
     (seqs [Bnd, lit ''Public Sub '', word_grp 1, lit ''()''],
        [TLit ''public void '', TGrp 1, TLit ''() {'']),
     (seqs [Bnd, lit ''Private Sub '', word_grp 1, lit ''()''],
        [TLit ''private void '', TGrp 1, TLit ''() {'']),
     (seqs [Bnd, lit ''Public Function '', word_grp 1, lit ''() As '', word_grp 2],
        [TLit ''public '', TGrp 2, TLit '' '', TGrp 1, TLit ''() {'']),
     (seqs [Bnd, lit ''Private Function '', word_grp 1, lit ''() As '', word_grp 2],
        [TLit ''private '', TGrp 2, TLit '' '', TGrp 1, TLit ''() {'']),
     (seqs [Bnd, lit ''End Sub'', Bnd], [TLit ''}'']),
     (seqs [Bnd, lit ''End Function'', Bnd], [TLit ''}'']),
     (seqs [Bnd, lit ''Public Property '', word_grp 1, lit ''() As '', word_grp 2],
        [TLit ''public '', TGrp 2, TLit '' '', TGrp 1, TLit '' { get; set; }'']),
     (seqs [Bnd, lit ''Private Property '', word_grp 1, lit ''() As '', word_grp 2],
        [TLit ''private '', TGrp 2, TLit '' '', TGrp 1, TLit '' { get; set; }'']),
     (seqs [Bnd, lit ''Dim '', word_grp 1, lit '' As Integer'', Bnd], [TLit ''int '', TGrp 1, TLit '';'']),
     (seqs [Bnd, lit ''Dim '', word_grp 1, lit '' As String'', Bnd], [TLit ''string '', TGrp 1, TLit '';'']),
     (seqs [Bnd, lit ''Dim '', word_grp 1, lit '' As Boolean'', Bnd], [TLit ''bool '', TGrp 1, TLit '';'']),
     (seqs [Bnd, lit ''Dim '', word_grp 1, lit '' As Double'', Bnd], [TLit ''double '', TGrp 1, TLit '';'']),
     (seqs [Bnd, lit ''If '', any_grp 1, lit '' Then''], [TLit ''if ('', TGrp 1, TLit '') {'']),
     (seqs [Bnd, lit ''End If'', Bnd], [TLit ''}'']),
     (seqs [Bnd, lit ''ElseIf''], [TLit ''} else if'']),
     (seqs [Bnd, lit ''Else'', Bnd], [TLit ''} else {'']),
     (seqs [Bnd, lit ''For Each '', word_grp 1, lit '' As '', word_grp 2, lit '' In '', any_grp 3],
        [TLit ''foreach ('', TGrp 2, TLit '' '', TGrp 1, TLit '' in '', TGrp 3, TLit '') {'']),
     (seqs [Bnd, lit ''For '', word_grp 1, lit '' As Integer = '', any_grp 2, lit '' To '', any_grp 3],
        [TLit ''for (int '', TGrp 1, TLit '' = '', TGrp 2, TLit ''; '', TGrp 1, TLit '' <= '', TGrp 3,
         TLit ''; '', TGrp 1, TLit ''++) {'']),
     (seqs [Bnd, lit ''Next'', Bnd], [TLit ''}'']),
     (seqs [spaces1, lit ''&'', spaces1], [TLit '' + '']),
     (seqs [Bnd, lit ''AndAlso'', Bnd], [TLit ''&&'']),
     (seqs [Bnd, lit ''OrElse'', Bnd], [TLit ''||'']),
     (seqs [Bnd, lit ''Not'', Bnd], [TLit ''!''])]"

definition vbnet_flags :: flags where
  "vbnet_flags = \<lparr>ignorecase = True, multiline = True, dotall = False\<rparr>"

definition transpile_vbnet_to_csharp :: "string \<Rightarrow> string" where
  "transpile_vbnet_to_csharp code = apply_rules vbnet_conversions vbnet_flags code"

subsection \<open>C# to VB.NET\<close>

definition csharp_conversions :: "(rx \<times> titem list) list" where
  "csharp_conversions =
    [(lit ''//'', [TLit [CHR 0x27]]),
     (lit '';'', [TLit '''']),
     (seqs [lit ''public class '', word_grp 1, spaces0, lit ''{''], [TLit ''Public Class '', TGrp 1]),
     (seqs [lit ''private class '', word_grp 1, spaces0, lit ''{''], [TLit ''Private Class '', TGrp 1]),
     (seqs [lit ''public void '', word_grp 1, lit ''()'', spaces0, lit ''{''],
        [TLit ''Public Sub '', TGrp 1, TLit ''()'']),
     (seqs [lit ''private void '', word_grp 1, lit ''()'', spaces0, lit ''{''],
        [TLit ''Private Sub '', TGrp 1, TLit ''()'']),
     (seqs [lit ''public '', word_grp 1, lit '' '', word_grp 2, lit ''()'', spaces0, lit ''{''],
        [TLit ''Public Function '', TGrp 2, TLit ''() As '', TGrp 1]),
     (seqs [lit ''private '', word_grp 1, lit '' '', word_grp 2, lit ''()'', spaces0, lit ''{''],
        [TLit ''Private Function '', TGrp 2, TLit ''() As '', TGrp 1]),
     (seqs [lit ''public '', word_grp 1, lit '' '', word_grp 2, lit '' { get; set; }''],
        [TLit ''Public Property '', TGrp 2, TLit ''() As '', TGrp 1]),
     (seqs [lit ''int '', word_grp 1], [TLit ''Dim '', TGrp 1, TLit '' As Integer'']),
     (seqs [lit ''string '', word_grp 1], [TLit ''Dim '', TGrp 1, TLit '' As String'']),
     (seqs [lit ''bool '', word_grp 1], [TLit ''Dim '', TGrp 1, TLit '' As Boolean'']),
     (seqs [lit ''double '', word_grp 1], [TLit ''Dim '', TGrp 1, TLit '' As Double'']),
     (seqs [lit ''if ('', any_lazy_grp 1, lit '')'', spaces0, lit ''{''],
        [TLit ''If '', TGrp 1, TLit '' Then'']),
     (lit ''else if'', [TLit ''ElseIf'']),
     (seqs [lit ''else'', spaces0, lit ''{''], [TLit ''Else'']),
     (lit ''}'', [TLit ''''])]"

definition csharp_flags :: flags where
  "csharp_flags = \<lparr>ignorecase = False, multiline = True, dotall = False\<rparr>"

text \<open>\<open>(Public|Private) Class\<close>, rewritten to itself.\<close>

definition class_head :: "rx \<times> titem list" where
  "class_head =
     (seqs [Grp 1 (Alt (lit ''Public'') (lit ''Private'')), lit '' Class''], [TGrp 1, TLit '' Class''])"

text \<open>The loop over the lines: every branch keeps the line; the stack is written, never read.\<close>

definition line_step :: "string \<Rightarrow> string list \<times> string list \<Rightarrow> string list \<times> string list" where
  "line_step ln = (\<lambda>(new_lines, indent_stack).
     (let stripped = strip ln in
      if prefix ''Public Class'' stripped \<or> prefix ''Private Class'' stripped \<or> prefix ''Class '' stripped
      then (new_lines @ [ln], indent_stack @ [''Class''])
      else if prefix ''Public Sub'' stripped \<or> prefix ''Private Sub'' stripped
      then (new_lines @ [ln], indent_stack @ [''Sub''])
      else if prefix ''Public Function'' stripped \<or> prefix ''Private Function'' stripped
      then (new_lines @ [ln], indent_stack @ [''Function''])
      else if prefix ''If '' stripped \<and> suffix '' Then'' stripped
      then (new_lines @ [ln], indent_stack @ [''If''])
      else (new_lines @ [ln], indent_stack)))"

text \<open>\<open>'\n'.join(lines)\<close>.\<close>

fun join_lines :: "string list \<Rightarrow> string" where
  "join_lines [] = []"
| "join_lines [l] = l"
| "join_lines (l # l' # ls) = l @ CHR 0x0A # join_lines (l' # ls)"

text \<open>\<open>(Public|Private) Class ([\w\s]+?)(?=\n(?:Public|Private|End|$))\<close>, closing a class.\<close>

definition class_end :: "rx \<times> titem list" where
  "class_end =
     (seqs [Grp 1 (Alt (lit ''Public'') (lit ''Private'')), lit '' Class '',
            Grp 2 (Rep Word_or_space 1 False),
            Look (seqs [lit [CHR 0x0A],
                        Alt (lit ''Public'') (Alt (lit ''Private'') (Alt (lit ''End'') Eol))])],
      [TGrp 1, TLit '' Class '', TGrp 2, TLit (CHR 0x0A # ''End Class'')])"

definition class_end_flags :: flags where
  "class_end_flags = \<lparr>ignorecase = False, multiline = True, dotall = True\<rparr>"

definition transpile_csharp_to_vbnet :: "string \<Rightarrow> string" where
  "transpile_csharp_to_vbnet code =
     (let result = apply_rules csharp_conversions csharp_flags code;
          result = re_sub (fst class_head) (snd class_head) result no_flags;
          lines = split_lines result;
          (new_lines, indent_stack) = fold line_step lines ([], []);
          result = join_lines new_lines
      in re_sub (fst class_end) (snd class_end) result class_end_flags)"

subsection \<open>The dispatch on the pair of dialects\<close>

text \<open>\<open>s.replace(c, '')\<close> for a one-character \<open>c\<close>.\<close>

definition remove_char :: "char \<Rightarrow> string \<Rightarrow> string" where
  "remove_char c s = filter (\<lambda>x. x \<noteq> c) s"

definition normalize :: "string \<Rightarrow> string" where
  "normalize lang = remove_char CHR ''.'' (remove_char CHR '' '' (lower lang))"

definition not_supported :: "string \<Rightarrow> string \<Rightarrow> string" where
  "not_supported source_lang target_lang =
     ''Conversion from '' @ source_lang @ '' to '' @ target_lang @ '' not supported''"

definition transpile_rule_based :: "string \<Rightarrow> string \<Rightarrow> string \<Rightarrow> string \<times> string list \<times> string list" where
  "transpile_rule_based code source_lang target_lang =
     (let source = normalize source_lang; target = normalize target_lang in
      if source = ''vb'' \<and> target = ''vbnet''
      then (transpile_vb_to_vbnet code,
            [''Manual review recommended: Some VB6 features may not be directly compatible with VB.NET''], [])
      else if source = ''vbnet'' \<and> target \<in> set [''csharp'', ''c#'']
      then (transpile_vbnet_to_csharp code,
            [''Converted VB.NET to C#. Review Option Strict and type conversions.''], [])
      else if source \<in> set [''csharp'', ''c#''] \<and> target = ''vbnet''
      then (transpile_csharp_to_vbnet code,
            [''Converted C# to VB.NET. Review semicolons and brackets.''], [])
      else if source = ''vb'' \<and> target \<in> set [''csharp'', ''c#'']
      then (transpile_vbnet_to_csharp (transpile_vb_to_vbnet code),
            [''Two-step conversion (VB -> VB.NET -> C#). Extensive testing required.''], [])
      else (code, [], [not_supported source_lang target_lang]))"

section \<open>The service\<close>

subsection \<open>What lies outside the program\<close>

text \<open>JSON values, as \<open>response.json()\<close> and the request's \<open>mcp_config\<close> carry them.\<close>

datatype json =
  JNull
| JBool bool
| JNum int
| JStr string
| JArr "json list"
| JObj "(string \<times> json) list"

text \<open>\<open>d.get(key)\<close> and \<open>d.get(key, default)\<close> on a dictionary given by its items.\<close>

definition dict_get :: "(string \<times> json) list \<Rightarrow> string \<Rightarrow> json" where
  "dict_get d key = (case map_of d key of Some v \<Rightarrow> v | None \<Rightarrow> JNull)"

definition dict_get_default :: "(string \<times> json) list \<Rightarrow> string \<Rightarrow> json \<Rightarrow> json" where
  "dict_get_default d key dflt = (case map_of d key of Some v \<Rightarrow> v | None \<Rightarrow> dflt)"

text \<open>Python's truth value of such a value.\<close>

fun truthy :: "json \<Rightarrow> bool" where
  "truthy JNull = False"
| "truthy (JBool b) = b"
| "truthy (JNum n) = (n \<noteq> 0)"
| "truthy (JStr s) = (s \<noteq> [])"
| "truthy (JArr xs) = (xs \<noteq> [])"
| "truthy (JObj kvs) = (kvs \<noteq> [])"

text \<open>The request \<open>call_mcp_server\<close> posts: address, credential header, and the payload.\<close>

record mcp_request =
  server_url :: json
  authorization :: "json option"
  ctx_ast :: ast
  ctx_source_code :: string
  ctx_source_language :: string
  ctx_target_language :: string
  task :: string

text \<open>
  What the post does: it raises (unreachable endpoint, transport error, timeout, bad
  address), or a response arrives with a status code and a body; the body is \<open>None\<close>
  when \<open>response.json()\<close> raises on it.
\<close>

datatype http_outcome =
  Raised string
| Response int "json option"

text \<open>
  The world a request runs in: the C# parser loaded at start-up (\<open>None\<close> when loading
  failed; a loaded parser gives \<open>None\<close> where parsing raises), the identifiers
  \<open>uuid.uuid4()\<close> draws, the agent behind \<open>client.post\<close>, and the texts of two
  exceptions: the one raised on a body that is not a JSON object, and the one the response
  model raises for a translation that is neither a string nor null.
\<close>

record world =
  parser_c_sharp :: "(string \<Rightarrow> ts_node option) option"
  uuid4 :: "nat list \<Rightarrow> string"
  post :: "mcp_request \<Rightarrow> http_outcome"
  body_error :: "json option \<Rightarrow> string"
  validation_error :: "json \<Rightarrow> string"

subsection \<open>Parsing\<close>

definition parse_code_to_ast :: "world \<Rightarrow> string \<Rightarrow> string \<Rightarrow> ast option" where
  "parse_code_to_ast w code language =
     (if lower language \<in> set [''c#'', ''csharp'', ''c_sharp'']
      then (case parser_c_sharp w of
              None \<Rightarrow> None
            | Some parser \<Rightarrow>
                (case parser code of
                   None \<Rightarrow> None
                 | Some root_node \<Rightarrow> Some (tree_to_dict (uuid4 w) [] root_node 50 0)))
      else None)"

record ast_response =
  p_success :: bool
  p_ast :: "ast option"
  p_semantic_tree :: "semantic option"
  p_error :: "string option"

text \<open>The tree \<open>parse_code\<close> makes up when there is no parse.\<close>

definition mock_ast :: "world \<Rightarrow> string \<Rightarrow> ast" where
  "mock_ast w code =
     Node ''root'' ''compilation_unit'' 0 (int (length (split_lines code))) (take 100 code)
       [Node (take 8 (uuid4 w [0])) ''class_declaration'' 0 10 ''Parsed structure'' []]"

definition parse_code :: "world \<Rightarrow> string \<Rightarrow> string \<Rightarrow> ast_response" where
  "parse_code w code source_lang =
     (let ast_data = (case parse_code_to_ast w code source_lang of
                        None \<Rightarrow> mock_ast w code
                      | Some a \<Rightarrow> a);
          semantic_tree = build_semantic_tree ast_data
      in \<lparr>p_success = True, p_ast = Some ast_data, p_semantic_tree = Some semantic_tree,
          p_error = None\<rparr>)"

subsection \<open>Validation\<close>

record issue =
  message :: string
  issue_line :: "int option"

record validate_response =
  valid :: bool
  v_errors :: "issue list"
  v_warnings :: "issue list"

definition validate_code :: "world \<Rightarrow> string \<Rightarrow> string \<Rightarrow> validate_response" where
  "validate_code w code language =
     (case parse_code_to_ast w code language of
        None \<Rightarrow>
          \<lparr>valid = True, v_errors = [],
           v_warnings = [\<lparr>message = ''Parser not available for this language. Basic validation only.'',
                          issue_line = None\<rparr>]\<rparr>
      | Some ast_data \<Rightarrow>
          (let errors = [];
               warnings = (if length (strip code) < 10
                           then [\<lparr>message = ''Code is very short'', issue_line = Some 0\<rparr>]
                           else [])
           in \<lparr>valid = (length errors = 0), v_errors = errors, v_warnings = warnings\<rparr>))"

subsection \<open>The agent\<close>

text \<open>\<open>str\<close> of a status code.\<close>

function str_nat :: "nat \<Rightarrow> string" where
  "str_nat n = (if n < 10 then [char_of (48 + n)] else str_nat (n div 10) @ [char_of (48 + n mod 10)])"
  by pat_completeness auto
termination
  by (relation "measure id") auto

definition str_int :: "int \<Rightarrow> string" where
  "str_int i = (if i < 0 then CHR ''-'' # str_nat (nat (- i)) else str_nat (nat i))"

text \<open>The dictionary \<open>call_mcp_server\<close> returns; a key it does not set is \<open>None\<close>.\<close>

record mcp_response =
  m_success :: bool
  m_transpiled_code :: "json option"
  m_error :: "string option"

definition make_request :: "json \<Rightarrow> json \<Rightarrow> ast \<Rightarrow> string \<Rightarrow> string \<Rightarrow> string \<Rightarrow> mcp_request" where
  "make_request url api_key ast_data source_code source_lang target_lang =
     \<lparr>server_url = url,
      authorization = (if truthy api_key then Some api_key else None),
      ctx_ast = ast_data, ctx_source_code = source_code,
      ctx_source_language = source_lang, ctx_target_language = target_lang,
      task = ''Transpile the provided '' @ source_lang @ '' code to '' @ target_lang
             @ ''. Use the AST context provided.''\<rparr>"

definition call_mcp_server ::
    "world \<Rightarrow> json \<Rightarrow> json \<Rightarrow> ast \<Rightarrow> string \<Rightarrow> string \<Rightarrow> string \<Rightarrow> mcp_response" where
  "call_mcp_server w url api_key ast_data source_code source_lang target_lang =
     (case post w (make_request url api_key ast_data source_code source_lang target_lang) of
        Raised e \<Rightarrow> \<lparr>m_success = False, m_transpiled_code = None, m_error = Some e\<rparr>
      | Response status_code body \<Rightarrow>
          if status_code = 200
          then (case body of
                  Some (JObj data) \<Rightarrow>
                    \<lparr>m_success = True,
                     m_transpiled_code =
                       Some (dict_get_default data ''result''
                               (dict_get_default data ''transpiled_code'' (JStr ''''))),
                     m_error = None\<rparr>
                | Some other \<Rightarrow>
                    \<lparr>m_success = False, m_transpiled_code = None,
                     m_error = Some (body_error w (Some other))\<rparr>
                | None \<Rightarrow>
                    \<lparr>m_success = False, m_transpiled_code = None,
                     m_error = Some (body_error w None)\<rparr>)
          else \<lparr>m_success = False, m_transpiled_code = None,
                m_error = Some (''MCP server returned '' @ str_int status_code)\<rparr>)"

subsection \<open>Translation\<close>

record transpile_request =
  code :: string
  source_lang :: string
  target_lang :: string
  use_mcp :: bool
  mcp_config :: "(string \<times> json) list option"

record transpile_response =
  success :: bool
  transpiled_code :: "string option"
  warnings :: "string list"
  errors :: "string list"
  method_tag :: string

text \<open>The rule-based answer, the last statement of \<open>transpile_code\<close>.\<close>

definition rule_based_response :: "transpile_request \<Rightarrow> transpile_response" where
  "rule_based_response request =
     (case transpile_rule_based (code request) (source_lang request) (target_lang request) of
        (transpiled, ws, es) \<Rightarrow>
          \<lparr>success = (length es = 0), transpiled_code = Some transpiled,
           warnings = ws, errors = es, method_tag = ''rule-based''\<rparr>)"

text \<open>
  \<open>transpile_code\<close>, with the requests it sent to the agent. A translation the agent
  reports that the response model refuses (neither a string nor null) raises, and the
  handler answers with the method tag \<open>error\<close>.
\<close>

definition transpile_code :: "world \<Rightarrow> transpile_request \<Rightarrow> transpile_response \<times> mcp_request list" where
  "transpile_code w request =
     (if use_mcp request \<and> (case mcp_config request of None \<Rightarrow> False | Some cfg \<Rightarrow> cfg \<noteq> [])
      then (case parse_code_to_ast w (code request) (source_lang request) of
              Some ast_data \<Rightarrow>
                (let cfg = the (mcp_config request);
                     sent = [make_request (dict_get cfg ''server_url'') (dict_get cfg ''api_key'')
                               ast_data (code request) (source_lang request) (target_lang request)];
                     mcp = call_mcp_server w (dict_get cfg ''server_url'') (dict_get cfg ''api_key'')
                             ast_data (code request) (source_lang request) (target_lang request)
                 in if m_success mcp
                    then (case m_transpiled_code mcp of
                            Some (JStr text) \<Rightarrow>
                              (\<lparr>success = True, transpiled_code = Some text,
                                warnings = [''Transpiled using MCP agent''], errors = [],
                                method_tag = ''mcp-ai''\<rparr>, sent)
                          | Some JNull \<Rightarrow>
                              (\<lparr>success = True, transpiled_code = None,
                                warnings = [''Transpiled using MCP agent''], errors = [],
                                method_tag = ''mcp-ai''\<rparr>, sent)
                          | None \<Rightarrow>
                              (\<lparr>success = True, transpiled_code = None,
                                warnings = [''Transpiled using MCP agent''], errors = [],
                                method_tag = ''mcp-ai''\<rparr>, sent)
                          | Some other \<Rightarrow>
                              (\<lparr>success = False, transpiled_code = None, warnings = [],
                                errors = [validation_error w other], method_tag = ''error''\<rparr>, sent))
                    else (rule_based_response request, sent))
            | None \<Rightarrow> (rule_based_response request, []))
      else (rule_based_response request, []))"

section \<open>Notions the properties are stated with\<close>

subsection \<open>Dialects and supported pairs\<close>

datatype dialect = Legacy | Modernized | C_family

text \<open>The dialect a normalized tag names for the rule engine, if any.\<close>

definition dialect_of :: "string \<Rightarrow> dialect option" where
  "dialect_of tag =
     (if tag = ''vb'' then Some Legacy
      else if tag = ''vbnet'' then Some Modernized
      else if tag = ''csharp'' \<or> tag = ''c#'' then Some C_family
      else None)"

text \<open>
  The four supported combinations: legacy to modernized, modernized to C-family, C-family
  to modernized, and legacy to C-family.
\<close>

definition supported_pairs :: "(dialect \<times> dialect) list" where
  "supported_pairs =
     [(Legacy, Modernized), (Modernized, C_family), (C_family, Modernized), (Legacy, C_family)]"

definition supported :: "string \<Rightarrow> string \<Rightarrow> bool" where
  "supported source_tag target_tag =
     (case (dialect_of (normalize source_tag), dialect_of (normalize target_tag)) of
        (Some a, Some b) \<Rightarrow> (a, b) \<in> set supported_pairs
      | _ \<Rightarrow> False)"

text \<open>The answer to a pair that is not supported.\<close>

definition unsupported_response :: "transpile_request \<Rightarrow> transpile_response" where
  "unsupported_response request =
     \<lparr>success = False, transpiled_code = Some (code request), warnings = [],
      errors = [not_supported (source_lang request) (target_lang request)],
      method_tag = ''rule-based''\<rparr>"

subsection \<open>The agent's part in a request\<close>

text \<open>The request asks for augmentation and carries connection parameters.\<close>

definition augmentation_enabled :: "transpile_request \<Rightarrow> bool" where
  "augmentation_enabled request =
     (use_mcp request \<and> (case mcp_config request of None \<Rightarrow> False | Some cfg \<Rightarrow> cfg \<noteq> []))"

text \<open>What is posted for a request, given the tree of its source text.\<close>

definition agent_request :: "transpile_request \<Rightarrow> ast \<Rightarrow> mcp_request" where
  "agent_request request ast_data =
     (let cfg = (case mcp_config request of None \<Rightarrow> [] | Some c \<Rightarrow> c)
      in make_request (dict_get cfg ''server_url'') (dict_get cfg ''api_key'') ast_data
           (code request) (source_lang request) (target_lang request))"

text \<open>
  The failures of a call: the post raises (endpoint unreachable, transport error,
  timeout), the status is not 200, or the body is not a JSON object.
\<close>

fun call_fails :: "http_outcome \<Rightarrow> bool" where
  "call_fails (Raised e) = True"
| "call_fails (Response status_code None) = True"
| "call_fails (Response status_code (Some (JObj data))) = (status_code \<noteq> 200)"
| "call_fails (Response status_code (Some other)) = True"

text \<open>The agent answers the request: augmentation is enabled, a tree exists, the call succeeds.\<close>

definition agent_answers :: "world \<Rightarrow> transpile_request \<Rightarrow> bool" where
  "agent_answers w request =
     (augmentation_enabled request \<and>
      (case parse_code_to_ast w (code request) (source_lang request) of
         None \<Rightarrow> False
       | Some ast_data \<Rightarrow> \<not> call_fails (post w (agent_request request ast_data))))"

subsection \<open>Sample worlds\<close>

definition sample_tree :: ts_node where
  "sample_tree =
     TSNode ''compilation_unit'' 0 0 (Some ''class A { }'')
       [TSNode ''class_declaration'' 0 0 (Some ''class A { }'')
          [TSNode ''class'' 0 0 (Some ''class'') [],
           TSNode ''identifier'' 0 0 (Some ''A'') [],
           TSNode ''declaration_list'' 0 0 (Some ''{ }'') []]]"

text \<open>A world with a working parser, in which every post has the outcome \<open>out\<close>.\<close>

definition world_with :: "http_outcome \<Rightarrow> world" where
  "world_with out =
     \<lparr>parser_c_sharp = Some (\<lambda>src. Some sample_tree),
      uuid4 = (\<lambda>path. ''1b4e28ba-2fa1-41d2-883f-0016d3cca427''),
      post = (\<lambda>request. out),
      body_error = (\<lambda>body. ''Expecting value: line 1 column 1 (char 0)''),
      validation_error = (\<lambda>v. ''Input should be a valid string'')\<rparr>"

definition unreachable :: world where
  "unreachable = world_with (Raised ''All connection attempts failed'')"

definition answering :: world where
  "answering = world_with (Response 200 (Some (JObj [(''result'', JStr ''// translated'')])))"

subsection \<open>Nodes of a tree\<close>

text \<open>Every node of a tree with its depth, the root at depth \<open>d\<close>.\<close>

fun nodes_at :: "nat \<Rightarrow> ast \<Rightarrow> (nat \<times> ast) list" where
  "nodes_at d (Node i ty s e t cs) = (d, Node i ty s e t cs) # concat (map (nodes_at (Suc d)) cs)"
| "nodes_at d Max_depth_reached = [(d, Max_depth_reached)]"

text \<open>The nodes of a tree in pre-order.\<close>

fun preorder :: "ast \<Rightarrow> ast list" where
  "preorder (Node i ty s e t cs) = Node i ty s e t cs # concat (map preorder cs)"
| "preorder Max_depth_reached = [Max_depth_reached]"

text \<open>Trees that exceed the caps: a node with \<open>n\<close> leaves, and a chain of \<open>n\<close> nested nodes.\<close>

definition wide_tree :: "nat \<Rightarrow> ts_node" where
  "wide_tree n = TSNode ''block'' 0 0 (Some ''{ }'') (replicate n (TSNode ''statement'' 0 0 None []))"

fun deep_tree :: "nat \<Rightarrow> ts_node" where
  "deep_tree 0 = TSNode ''identifier'' 0 0 (Some ''x'') []"
| "deep_tree (Suc n) = TSNode ''parenthesized_expression'' 0 0 (Some ''(x)'') [deep_tree n]"

subsection \<open>Categories of the summary\<close>

datatype category = Declared_type | Callable_member | Data_member

text \<open>
  The classification rule in words: the kind tag, case-folded, containing \<open>class\<close> is a
  declared type; else containing \<open>method\<close> or \<open>function\<close>, a callable member; else
  containing \<open>property\<close> or \<open>field\<close>, a data member.
\<close>

definition classify :: "string \<Rightarrow> category option" where
  "classify kind =
     (if contains ''class'' (lower kind) then Some Declared_type
      else if contains ''method'' (lower kind) \<or> contains ''function'' (lower kind)
      then Some Callable_member
      else if contains ''property'' (lower kind) \<or> contains ''field'' (lower kind)
      then Some Data_member
      else None)"

text \<open>The entries of one category: its nodes in pre-order.\<close>

definition entries_of :: "category \<Rightarrow> ast \<Rightarrow> entry list" where
  "entries_of c t = map make_entry (filter (\<lambda>n. classify (get_type n) = Some c) (preorder t))"

definition empty_summary :: semantic where
  "empty_summary = \<lparr>classes = [], methods = [], properties = [], imports' = []\<rparr>"

text \<open>A summary with further entries after its own.\<close>

definition extend_summary :: "semantic \<Rightarrow> entry list \<Rightarrow> entry list \<Rightarrow> entry list \<Rightarrow> semantic" where
  "extend_summary sem cs ms ps =
     sem\<lparr>classes := classes sem @ cs, methods := methods sem @ ms, properties := properties sem @ ps\<rparr>"

text \<open>Sample trees: one whose kinds match no category, and one with a kind of each sort.\<close>

definition plain_tree :: ast where
  "plain_tree =
     Node ''a1'' ''compilation_unit'' 0 2 ''x = 1;'' 
       [Node ''a2'' ''expression_statement'' 0 0 ''x = 1;'' [Max_depth_reached],
        Node ''a3'' ''identifier'' 1 1 ''y'' []]"

definition mixed_tree :: ast where
  "mixed_tree =
     Node ''b1'' ''Class_Declaration'' 0 9 ''class A'' 
       [Node ''b2'' ''method_declaration'' 1 3 ''void F()'' [],
        Node ''b3'' ''field_declaration'' 4 4 ''int x;'' [],
        Node ''b4'' ''class_method_field'' 5 5 ''static'' [],
        Node ''b5'' ''local_function_statement'' 6 7 ''int G()'' [],
        Node ''b6'' ''property_declaration'' 8 8 ''int P'' [],
        Node ''b7'' ''identifier'' 8 8 ''P'' []]"

subsection \<open>Texts up to the case of the letters A to Z\<close>

text \<open>
  Two texts differ only in letter case when they are equal once the letters \<open>A\<close> to \<open>Z\<close>
  are put in lower case; the keywords of the rules are made of these letters.
\<close>

definition fold_char :: "char \<Rightarrow> char" where
  "fold_char c = (if 65 \<le> code_point c \<and> code_point c \<le> 90 then lower_char c else c)"

definition fold_text :: "string \<Rightarrow> string" where
  "fold_text s = map fold_char s"

text \<open>A position of the matcher with these letters in lower case.\<close>

definition fold_caps :: "(nat \<times> string) list \<Rightarrow> (nat \<times> string) list" where
  "fold_caps caps = map (\<lambda>(i, t). (i, fold_text t)) caps"

fun fold_state :: "mstate \<Rightarrow> mstate" where
  "fold_state (prev, rest, caps) = (map_option fold_char prev, fold_text rest, fold_caps caps)"

text \<open>Two continuations that agree, up to letter case, on positions equal up to letter case.\<close>

definition case_blind :: "(mstate \<Rightarrow> mstate option) \<Rightarrow> (mstate \<Rightarrow> mstate option) \<Rightarrow> bool" where
  "case_blind k k' =
     (\<forall>st st'. fold_state st = fold_state st' \<longrightarrow>
        map_option fold_state (k st) = map_option fold_state (k' st'))"

subsection \<open>Positions inside a word\<close>

text \<open>The character before a position is a word character.\<close>

fun word_before :: "char option \<Rightarrow> bool" where
  "word_before None = False"
| "word_before (Some c) = is_word c"

text \<open>The character at a position is a word character.\<close>

fun word_ahead :: "string \<Rightarrow> bool" where
  "word_ahead [] = False"
| "word_ahead (c # cs) = is_word c"

text \<open>
  A position lies inside a word when there is a word character on both sides of it: a
  match that starts or ends there cuts an identifier in two.
\<close>

definition inside_word :: "char option \<Rightarrow> string \<Rightarrow> bool" where
  "inside_word prev rest = (word_before prev \<and> word_ahead rest)"

text \<open>The character before the position \<open>n\<close> characters into the text \<open>s\<close>.\<close>

definition char_before :: "char option \<Rightarrow> string \<Rightarrow> nat \<Rightarrow> char option" where
  "char_before prev s n = (if n = 0 then prev else Some (s ! (n - 1)))"

text \<open>A state of the matcher is a position of the text \<open>s\<close>, which \<open>prev\<close> precedes.\<close>

fun position_of :: "char option \<Rightarrow> string \<Rightarrow> mstate \<Rightarrow> bool" where
  "position_of prev s (prev', rest', caps') =
     (length rest' \<le> length s
      \<and> rest' = drop (length s - length rest') s
      \<and> prev' = char_before prev s (length s - length rest'))"

text \<open>
  Patterns that cannot start inside a word: they begin with \<open>\b\<close>, with a character that
  is not a word character, or with white space.
\<close>

fun starts_whole :: "rx \<Rightarrow> bool" where
  "starts_whole (Seq a b) = starts_whole a"
| "starts_whole Bnd = True"
| "starts_whole (Chr (Lit c)) = (\<not> is_word c)"
| "starts_whole (Chr Space) = True"
| "starts_whole (Rep Space (Suc n) greedy) = True"
| "starts_whole r = False"

text \<open>
  Patterns that cannot end inside a word: their last part is \<open>\b\<close>, a character that is
  not a word character, white space, or a greedy group \<open>(\w+)\<close> or \<open>(.+)\<close> (without
  \<open>DOTALL\<close>), which runs to the end of the word or of the line.
\<close>

fun ends_whole :: "flags \<Rightarrow> rx \<Rightarrow> bool" where
  "ends_whole f (Seq a Eps) = ends_whole f a"
| "ends_whole f (Seq a b) = ends_whole f b"
| "ends_whole f Bnd = True"
| "ends_whole f (Chr (Lit c)) = (\<not> is_word c)"
| "ends_whole f (Chr Space) = True"
| "ends_whole f (Rep Space (Suc n) greedy) = True"
| "ends_whole f (Grp i (Rep Word (Suc 0) True)) = True"
| "ends_whole f (Grp i (Rep Any_char (Suc 0) True)) = (\<not> dotall f)"
| "ends_whole f r = False"

text \<open>The two modernized to C-family patterns that can end inside a word.\<close>

definition if_then_pattern :: rx where
  "if_then_pattern = seqs [Bnd, lit ''If '', any_grp 1, lit '' Then'']"

definition elseif_pattern :: rx where
  "elseif_pattern = seqs [Bnd, lit ''ElseIf'']"

section \<open>Properties\<close>

subsection \<open>Parsing and the rule engine's dispatch\<close>

lemma no_grammar:
  "lower lang \<notin> set [''c#'', ''csharp'', ''c_sharp''] \<Longrightarrow> parse_code_to_ast w src lang = None"
  by (simp add: parse_code_to_ast_def)

lemma normalize_grammar_tag:
  assumes "lower lang \<in> set [''c#'', ''csharp'', ''c_sharp'']"
  shows "normalize lang \<in> set [''c#'', ''csharp'', ''c_sharp'']"
  using assms by (auto simp: normalize_def remove_char_def)

lemma ungrammared_no_tree:
  assumes "dialect_of (normalize lang) = Some Legacy \<or> dialect_of (normalize lang) = Some Modernized"
  shows "parse_code_to_ast w src lang = None"
proof (rule no_grammar)
  show "lower lang \<notin> set [''c#'', ''csharp'', ''c_sharp'']"
  proof
    assume "lower lang \<in> set [''c#'', ''csharp'', ''c_sharp'']"
    then have "normalize lang \<in> set [''c#'', ''csharp'', ''c_sharp'']"
      by (rule normalize_grammar_tag)
    with assms show False
      by (auto simp: dialect_of_def split: if_splits)
  qed
qed

lemma rule_based_unsupported:
  assumes "\<not> supported s t"
  shows "transpile_rule_based src s t = (src, [], [not_supported s t])"
  using assms
  by (auto simp: supported_def transpile_rule_based_def dialect_of_def supported_pairs_def Let_def
      split: if_splits)

lemma same_tag_unsupported: "normalize s = normalize t \<Longrightarrow> \<not> supported s t"
  by (auto simp: supported_def dialect_of_def supported_pairs_def split: if_splits option.splits)

lemma failed_call_reported:
  assumes "call_fails (post w (make_request url api_key a src s t))"
  shows "\<not> m_success (call_mcp_server w url api_key a src s t)"
  using assms
  by (cases "post w (make_request url api_key a src s t)" rule: call_fails.cases)
     (auto simp: call_mcp_server_def split: json.splits option.splits)

lemma not_answered_rule_based:
  assumes "\<not> agent_answers w request"
  shows "fst (transpile_code w request) = rule_based_response request"
proof (cases "augmentation_enabled request")
  case False
  then show ?thesis by (auto simp: transpile_code_def augmentation_enabled_def)
next
  case True
  then obtain cfg where cfg: "mcp_config request = Some cfg" "cfg \<noteq> []" "use_mcp request"
    by (auto simp: augmentation_enabled_def split: option.splits)
  show ?thesis
  proof (cases "parse_code_to_ast w (code request) (source_lang request)")
    case None
    then show ?thesis by (simp add: transpile_code_def)
  next
    case (Some a)
    with assms True have "call_fails (post w (agent_request request a))"
      by (simp add: agent_answers_def)
    then have "\<not> m_success (call_mcp_server w (dict_get cfg ''server_url'') (dict_get cfg ''api_key'') a
             (code request) (source_lang request) (target_lang request))"
      using cfg by (intro failed_call_reported) (simp add: agent_request_def)
    then show ?thesis using Some cfg by (simp add: transpile_code_def Let_def)
  qed
qed

lemma no_tree_nothing_sent:
  assumes "parse_code_to_ast w (code request) (source_lang request) = None"
  shows "transpile_code w request = (rule_based_response request, [])"
  using assms by (simp add: transpile_code_def)

lemma method_rule_based: "method_tag (rule_based_response request) = ''rule-based''"
  by (simp add: rule_based_response_def split: prod.splits)

text \<open>
  C1, as amended. A pair outside the four supported combinations, which includes every
  pair whose normalized tags are equal, is refused by the rule engine: the text comes
  back unchanged, with no warning and the one message that the conversion is not
  supported. The transpile operation answers with exactly that and \<open>success = False\<close>,
  unless the agent answers the request first.
\<close>

theorem unsupported_pair_refused:
  assumes "\<not> supported (source_lang request) (target_lang request)"
  shows "transpile_rule_based (code request) (source_lang request) (target_lang request)
           = (code request, [], [not_supported (source_lang request) (target_lang request)])
       \<and> (\<not> agent_answers w request \<longrightarrow>
            fst (transpile_code w request) = unsupported_response request)
       \<and> contains ''not supported'' (not_supported (source_lang request) (target_lang request))"
proof -
  have "contains ''not supported'' (xs @ '' not supported'')" for xs
    by (induction xs) simp_all
  then have "contains ''not supported'' (not_supported (source_lang request) (target_lang request))"
    unfolding not_supported_def by (metis append_assoc)
  then show ?thesis
    using assms not_answered_rule_based [of w request]
    by (simp add: rule_based_unsupported rule_based_response_def unsupported_response_def)
qed

theorem unsupported_pair_refused_witness:
  "\<not> supported ''vbnet'' ''vbnet''
   \<and> fst (transpile_code answering
        \<lparr>code = ''Public Class Test'', source_lang = ''vbnet'', target_lang = ''vbnet'',
         use_mcp = True, mcp_config = Some [(''server_url'', JStr ''https://agent.example/api'')]\<rparr>)
     = \<lparr>success = False, transpiled_code = Some ''Public Class Test'', warnings = [],
        errors = [''Conversion from vbnet to vbnet not supported''], method_tag = ''rule-based''\<rparr>"
proof -
  let ?r = "\<lparr>code = ''Public Class Test'', source_lang = ''vbnet'', target_lang = ''vbnet'',
         use_mcp = True, mcp_config = Some [(''server_url'', JStr ''https://agent.example/api'')]\<rparr>"
  have h: "\<not> supported (source_lang ?r) (target_lang ?r)"
    by (simp add: same_tag_unsupported)
  have "lower ''vbnet'' \<notin> set [''c#'', ''csharp'', ''c_sharp'']" by code_simp
  then have n: "\<not> agent_answers answering ?r"
    by (simp add: agent_answers_def no_grammar)
  show ?thesis
    using h n unsupported_pair_refused [OF h, of answering]
    by (simp add: unsupported_response_def not_supported_def)
qed

text \<open>
  C1 as stated fails where the agent answers: a C#-to-C# request with augmentation
  enabled and an agent that replies is answered with the agent's text and
  \<open>success = True\<close>, though the pair is not supported.
\<close>

theorem unsupported_pair_answered_by_agent:
  "\<not> supported ''csharp'' ''csharp''
   \<and> fst (transpile_code answering
        \<lparr>code = ''class A { }'', source_lang = ''csharp'', target_lang = ''csharp'',
         use_mcp = True, mcp_config = Some [(''server_url'', JStr ''https://agent.example/api'')]\<rparr>)
     = \<lparr>success = True, transpiled_code = Some ''// translated'',
        warnings = [''Transpiled using MCP agent''], errors = [], method_tag = ''mcp-ai''\<rparr>"
proof -
  have g: "lower ''csharp'' \<in> set [''c#'', ''csharp'', ''c_sharp'']" by code_simp
  have p: "parse_code_to_ast answering src ''csharp''
             = Some (tree_to_dict (uuid4 answering) [] sample_tree 50 0)" for src
    using g by (simp add: parse_code_to_ast_def answering_def world_with_def)
  have c: "call_mcp_server answering url k a src s t
             = \<lparr>m_success = True, m_transpiled_code = Some (JStr ''// translated''), m_error = None\<rparr>"
    for url k a src s t
    by (simp add: call_mcp_server_def answering_def world_with_def dict_get_default_def)
  show ?thesis
    by (simp add: same_tag_unsupported transpile_code_def p c Let_def)
qed

text \<open>The character classes on the characters of the examples below.\<close>

lemma is_word_ascii:
  "\<not> is_word CHR 0x09" "\<not> is_word CHR 0x0A" "\<not> is_word CHR 0x0D" "\<not> is_word CHR 0x20"
  "\<not> is_word CHR 0x21" "\<not> is_word CHR 0x22" "\<not> is_word CHR 0x23" "\<not> is_word CHR 0x24"
  "\<not> is_word CHR 0x25" "\<not> is_word CHR 0x26" "\<not> is_word CHR 0x27" "\<not> is_word CHR 0x28"
  "\<not> is_word CHR 0x29" "\<not> is_word CHR 0x2A" "\<not> is_word CHR 0x2B" "\<not> is_word CHR 0x2C"
  "\<not> is_word CHR 0x2D" "\<not> is_word CHR 0x2E" "\<not> is_word CHR 0x2F" "is_word CHR ''0''"
  "is_word CHR ''1''" "is_word CHR ''2''" "is_word CHR ''3''" "is_word CHR ''4''"
  "is_word CHR ''5''" "is_word CHR ''6''" "is_word CHR ''7''" "is_word CHR ''8''"
  "is_word CHR ''9''" "\<not> is_word CHR 0x3A" "\<not> is_word CHR 0x3B" "\<not> is_word CHR 0x3C"
  "\<not> is_word CHR 0x3D" "\<not> is_word CHR 0x3E" "\<not> is_word CHR 0x3F" "\<not> is_word CHR 0x40"
  "is_word CHR ''A''" "is_word CHR ''B''" "is_word CHR ''C''" "is_word CHR ''D''"
  "is_word CHR ''E''" "is_word CHR ''F''" "is_word CHR ''G''" "is_word CHR ''H''"
  "is_word CHR ''I''" "is_word CHR ''J''" "is_word CHR ''K''" "is_word CHR ''L''"
  "is_word CHR ''M''" "is_word CHR ''N''" "is_word CHR ''O''" "is_word CHR ''P''"
  "is_word CHR ''Q''" "is_word CHR ''R''" "is_word CHR ''S''" "is_word CHR ''T''"
  "is_word CHR ''U''" "is_word CHR ''V''" "is_word CHR ''W''" "is_word CHR ''X''"
  "is_word CHR ''Y''" "is_word CHR ''Z''" "\<not> is_word CHR 0x5B" "\<not> is_word CHR 0x5C"
  "\<not> is_word CHR 0x5D" "\<not> is_word CHR 0x5E" "is_word CHR 0x5F" "\<not> is_word CHR 0x60"
  "is_word CHR ''a''" "is_word CHR ''b''" "is_word CHR ''c''" "is_word CHR ''d''"
  "is_word CHR ''e''" "is_word CHR ''f''" "is_word CHR ''g''" "is_word CHR ''h''"
  "is_word CHR ''i''" "is_word CHR ''j''" "is_word CHR ''k''" "is_word CHR ''l''"
  "is_word CHR ''m''" "is_word CHR ''n''" "is_word CHR ''o''" "is_word CHR ''p''"
  "is_word CHR ''q''" "is_word CHR ''r''" "is_word CHR ''s''" "is_word CHR ''t''"
  "is_word CHR ''u''" "is_word CHR ''v''" "is_word CHR ''w''" "is_word CHR ''x''"
  "is_word CHR ''y''" "is_word CHR ''z''" "\<not> is_word CHR 0x7B" "\<not> is_word CHR 0x7C"
  "\<not> is_word CHR 0x7D" "\<not> is_word CHR 0x7E"
  by code_simp+

lemma is_space_ascii:
  "is_space CHR 0x09" "is_space CHR 0x0A" "is_space CHR 0x0D" "is_space CHR 0x20"
  "\<not> is_space CHR 0x21" "\<not> is_space CHR 0x22" "\<not> is_space CHR 0x23" "\<not> is_space CHR 0x24"
  "\<not> is_space CHR 0x25" "\<not> is_space CHR 0x26" "\<not> is_space CHR 0x27" "\<not> is_space CHR 0x28"
  "\<not> is_space CHR 0x29" "\<not> is_space CHR 0x2A" "\<not> is_space CHR 0x2B" "\<not> is_space CHR 0x2C"
  "\<not> is_space CHR 0x2D" "\<not> is_space CHR 0x2E" "\<not> is_space CHR 0x2F" "\<not> is_space CHR ''0''"
  "\<not> is_space CHR ''1''" "\<not> is_space CHR ''2''" "\<not> is_space CHR ''3''" "\<not> is_space CHR ''4''"
  "\<not> is_space CHR ''5''" "\<not> is_space CHR ''6''" "\<not> is_space CHR ''7''" "\<not> is_space CHR ''8''"
  "\<not> is_space CHR ''9''" "\<not> is_space CHR 0x3A" "\<not> is_space CHR 0x3B" "\<not> is_space CHR 0x3C"
  "\<not> is_space CHR 0x3D" "\<not> is_space CHR 0x3E" "\<not> is_space CHR 0x3F" "\<not> is_space CHR 0x40"
  "\<not> is_space CHR ''A''" "\<not> is_space CHR ''B''" "\<not> is_space CHR ''C''" "\<not> is_space CHR ''D''"
  "\<not> is_space CHR ''E''" "\<not> is_space CHR ''F''" "\<not> is_space CHR ''G''" "\<not> is_space CHR ''H''"
  "\<not> is_space CHR ''I''" "\<not> is_space CHR ''J''" "\<not> is_space CHR ''K''" "\<not> is_space CHR ''L''"
  "\<not> is_space CHR ''M''" "\<not> is_space CHR ''N''" "\<not> is_space CHR ''O''" "\<not> is_space CHR ''P''"
  "\<not> is_space CHR ''Q''" "\<not> is_space CHR ''R''" "\<not> is_space CHR ''S''" "\<not> is_space CHR ''T''"
  "\<not> is_space CHR ''U''" "\<not> is_space CHR ''V''" "\<not> is_space CHR ''W''" "\<not> is_space CHR ''X''"
  "\<not> is_space CHR ''Y''" "\<not> is_space CHR ''Z''" "\<not> is_space CHR 0x5B" "\<not> is_space CHR 0x5C"
  "\<not> is_space CHR 0x5D" "\<not> is_space CHR 0x5E" "\<not> is_space CHR 0x5F" "\<not> is_space CHR 0x60"
  "\<not> is_space CHR ''a''" "\<not> is_space CHR ''b''" "\<not> is_space CHR ''c''" "\<not> is_space CHR ''d''"
  "\<not> is_space CHR ''e''" "\<not> is_space CHR ''f''" "\<not> is_space CHR ''g''" "\<not> is_space CHR ''h''"
  "\<not> is_space CHR ''i''" "\<not> is_space CHR ''j''" "\<not> is_space CHR ''k''" "\<not> is_space CHR ''l''"
  "\<not> is_space CHR ''m''" "\<not> is_space CHR ''n''" "\<not> is_space CHR ''o''" "\<not> is_space CHR ''p''"
  "\<not> is_space CHR ''q''" "\<not> is_space CHR ''r''" "\<not> is_space CHR ''s''" "\<not> is_space CHR ''t''"
  "\<not> is_space CHR ''u''" "\<not> is_space CHR ''v''" "\<not> is_space CHR ''w''" "\<not> is_space CHR ''x''"
  "\<not> is_space CHR ''y''" "\<not> is_space CHR ''z''" "\<not> is_space CHR 0x7B" "\<not> is_space CHR 0x7C"
  "\<not> is_space CHR 0x7D" "\<not> is_space CHR 0x7E"
  by code_simp+

lemma lower_char_ascii:
  "lower_char CHR 0x09 = CHR 0x09" "lower_char CHR 0x0A = CHR 0x0A" "lower_char CHR 0x0D = CHR 0x0D"
  "lower_char CHR 0x20 = CHR 0x20" "lower_char CHR 0x21 = CHR 0x21" "lower_char CHR 0x22 = CHR 0x22"
  "lower_char CHR 0x23 = CHR 0x23" "lower_char CHR 0x24 = CHR 0x24" "lower_char CHR 0x25 = CHR 0x25"
  "lower_char CHR 0x26 = CHR 0x26" "lower_char CHR 0x27 = CHR 0x27" "lower_char CHR 0x28 = CHR 0x28"
  "lower_char CHR 0x29 = CHR 0x29" "lower_char CHR 0x2A = CHR 0x2A" "lower_char CHR 0x2B = CHR 0x2B"
  "lower_char CHR 0x2C = CHR 0x2C" "lower_char CHR 0x2D = CHR 0x2D" "lower_char CHR 0x2E = CHR 0x2E"
  "lower_char CHR 0x2F = CHR 0x2F" "lower_char CHR ''0'' = CHR ''0''" "lower_char CHR ''1'' = CHR ''1''"
  "lower_char CHR ''2'' = CHR ''2''" "lower_char CHR ''3'' = CHR ''3''" "lower_char CHR ''4'' = CHR ''4''"
  "lower_char CHR ''5'' = CHR ''5''" "lower_char CHR ''6'' = CHR ''6''" "lower_char CHR ''7'' = CHR ''7''"
  "lower_char CHR ''8'' = CHR ''8''" "lower_char CHR ''9'' = CHR ''9''" "lower_char CHR 0x3A = CHR 0x3A"
  "lower_char CHR 0x3B = CHR 0x3B" "lower_char CHR 0x3C = CHR 0x3C" "lower_char CHR 0x3D = CHR 0x3D"
  "lower_char CHR 0x3E = CHR 0x3E" "lower_char CHR 0x3F = CHR 0x3F" "lower_char CHR 0x40 = CHR 0x40"
  "lower_char CHR ''A'' = CHR ''a''" "lower_char CHR ''B'' = CHR ''b''" "lower_char CHR ''C'' = CHR ''c''"
  "lower_char CHR ''D'' = CHR ''d''" "lower_char CHR ''E'' = CHR ''e''" "lower_char CHR ''F'' = CHR ''f''"
  "lower_char CHR ''G'' = CHR ''g''" "lower_char CHR ''H'' = CHR ''h''" "lower_char CHR ''I'' = CHR ''i''"
  "lower_char CHR ''J'' = CHR ''j''" "lower_char CHR ''K'' = CHR ''k''" "lower_char CHR ''L'' = CHR ''l''"
  "lower_char CHR ''M'' = CHR ''m''" "lower_char CHR ''N'' = CHR ''n''" "lower_char CHR ''O'' = CHR ''o''"
  "lower_char CHR ''P'' = CHR ''p''" "lower_char CHR ''Q'' = CHR ''q''" "lower_char CHR ''R'' = CHR ''r''"
  "lower_char CHR ''S'' = CHR ''s''" "lower_char CHR ''T'' = CHR ''t''" "lower_char CHR ''U'' = CHR ''u''"
  "lower_char CHR ''V'' = CHR ''v''" "lower_char CHR ''W'' = CHR ''w''" "lower_char CHR ''X'' = CHR ''x''"
  "lower_char CHR ''Y'' = CHR ''y''" "lower_char CHR ''Z'' = CHR ''z''" "lower_char CHR 0x5B = CHR 0x5B"
  "lower_char CHR 0x5C = CHR 0x5C" "lower_char CHR 0x5D = CHR 0x5D" "lower_char CHR 0x5E = CHR 0x5E"
  "lower_char CHR 0x5F = CHR 0x5F" "lower_char CHR 0x60 = CHR 0x60" "lower_char CHR ''a'' = CHR ''a''"
  "lower_char CHR ''b'' = CHR ''b''" "lower_char CHR ''c'' = CHR ''c''" "lower_char CHR ''d'' = CHR ''d''"
  "lower_char CHR ''e'' = CHR ''e''" "lower_char CHR ''f'' = CHR ''f''" "lower_char CHR ''g'' = CHR ''g''"
  "lower_char CHR ''h'' = CHR ''h''" "lower_char CHR ''i'' = CHR ''i''" "lower_char CHR ''j'' = CHR ''j''"
  "lower_char CHR ''k'' = CHR ''k''" "lower_char CHR ''l'' = CHR ''l''" "lower_char CHR ''m'' = CHR ''m''"
  "lower_char CHR ''n'' = CHR ''n''" "lower_char CHR ''o'' = CHR ''o''" "lower_char CHR ''p'' = CHR ''p''"
  "lower_char CHR ''q'' = CHR ''q''" "lower_char CHR ''r'' = CHR ''r''" "lower_char CHR ''s'' = CHR ''s''"
  "lower_char CHR ''t'' = CHR ''t''" "lower_char CHR ''u'' = CHR ''u''" "lower_char CHR ''v'' = CHR ''v''"
  "lower_char CHR ''w'' = CHR ''w''" "lower_char CHR ''x'' = CHR ''x''" "lower_char CHR ''y'' = CHR ''y''"
  "lower_char CHR ''z'' = CHR ''z''" "lower_char CHR 0x7B = CHR 0x7B" "lower_char CHR 0x7C = CHR 0x7C"
  "lower_char CHR 0x7D = CHR 0x7D" "lower_char CHR 0x7E = CHR 0x7E"
  by code_simp+

subsection \<open>Evaluating the rules on a text\<close>

lemmas char_facts = is_word_ascii is_space_ascii lower_char_ascii

lemmas engine_defs = re_sub_def lit_def seqs_def word_grp_def any_grp_def any_lazy_grp_def
  spaces0_def spaces1_def match_here_def expand_def apply_rules_def

lemma vb_dim_x: "transpile_vb_to_vbnet ''Dim x As Integer'' = ''Dim x As Integer''"
  by (simp add: transpile_vb_to_vbnet_def vb_replacements_def no_flags_def engine_defs char_facts)

lemma vbnet_dim_x: "transpile_vbnet_to_csharp ''Dim x As Integer'' = ''int x;''"
  by (simp add: transpile_vbnet_to_csharp_def vbnet_conversions_def vbnet_flags_def engine_defs
      char_facts)

lemma vb_dim_total: "transpile_vb_to_vbnet ''Dim  total  As  Integer'' = ''Dim total As Integer''"
  by (simp add: transpile_vb_to_vbnet_def vb_replacements_def no_flags_def engine_defs char_facts)

lemma vbnet_dim_total: "transpile_vbnet_to_csharp ''Dim total As Integer'' = ''int total;''"
  by (simp add: transpile_vbnet_to_csharp_def vbnet_conversions_def vbnet_flags_def engine_defs
      char_facts)

lemma vbnet_calculator:
  "transpile_vbnet_to_csharp (''Public Class Calculator'' @ [CHR 0x0A] @ ''End Class'')
     = ''public class Calculator { {'' @ [CHR 0x0A] @ ''}''"
  by (simp add: transpile_vbnet_to_csharp_def vbnet_conversions_def vbnet_flags_def engine_defs
      char_facts)

subsection \<open>The composed path\<close>

lemma rule_based_two_step:
  assumes "dialect_of (normalize s) = Some Legacy" and "dialect_of (normalize t) = Some C_family"
  shows "transpile_rule_based src s t =
           (transpile_vbnet_to_csharp (transpile_vb_to_vbnet src),
            [''Two-step conversion (VB -> VB.NET -> C#). Extensive testing required.''], [])"
  using assms by (auto simp: transpile_rule_based_def dialect_of_def Let_def split: if_splits)

text \<open>
  C2, as amended. On the legacy to C-family path the text is the modernized to C-family
  rules applied to the output of the legacy to modernized rules; the answer carries the
  one two-step warning and the method tag \<open>rule-based\<close>, the tag of the direct paths,
  and no request goes to the agent.
\<close>

theorem two_step_translation:
  assumes "dialect_of (normalize (source_lang request)) = Some Legacy"
    and "dialect_of (normalize (target_lang request)) = Some C_family"
  shows "transpile_code w request =
           (\<lparr>success = True,
             transpiled_code = Some (transpile_vbnet_to_csharp (transpile_vb_to_vbnet (code request))),
             warnings = [''Two-step conversion (VB -> VB.NET -> C#). Extensive testing required.''],
             errors = [], method_tag = ''rule-based''\<rparr>, [])"
proof -
  have "parse_code_to_ast w (code request) (source_lang request) = None"
    using assms(1) by (simp add: ungrammared_no_tree)
  then have "transpile_code w request = (rule_based_response request, [])"
    by (rule no_tree_nothing_sent)
  then show ?thesis
    using assms by (simp add: rule_based_response_def rule_based_two_step)
qed

theorem two_step_translation_witness:
  "dialect_of (normalize ''VB'') = Some Legacy \<and> dialect_of (normalize ''C#'') = Some C_family
   \<and> transpile_code answering
        \<lparr>code = ''Dim  total  As  Integer'', source_lang = ''VB'', target_lang = ''C#'',
         use_mcp = True, mcp_config = Some [(''server_url'', JStr ''https://agent.example/api'')]\<rparr>
     = (\<lparr>success = True, transpiled_code = Some ''int total;'',
         warnings = [''Two-step conversion (VB -> VB.NET -> C#). Extensive testing required.''],
         errors = [], method_tag = ''rule-based''\<rparr>, [])"
proof -
  let ?r = "\<lparr>code = ''Dim  total  As  Integer'', source_lang = ''VB'', target_lang = ''C#'',
         use_mcp = True, mcp_config = Some [(''server_url'', JStr ''https://agent.example/api'')]\<rparr>"
  have s: "dialect_of (normalize (source_lang ?r)) = Some Legacy"
    by (simp add: normalize_def remove_char_def lower_def dialect_of_def char_facts)
  have t: "dialect_of (normalize (target_lang ?r)) = Some C_family"
    by (simp add: normalize_def remove_char_def lower_def dialect_of_def char_facts)
  show ?thesis
    using s t two_step_translation [OF s t, of answering]
    by (simp add: vb_dim_total vbnet_dim_total)
qed

text \<open>
  C2 as stated fails on Scenario C: the answer to \<open>Dim x As Integer\<close>, legacy to C-family,
  has one warning, not two, and the method tag of a direct translation.
\<close>

theorem two_step_one_warning:
  "fst (transpile_code unreachable
        \<lparr>code = ''Dim x As Integer'', source_lang = ''vb'', target_lang = ''csharp'',
         use_mcp = False, mcp_config = None\<rparr>)
     = \<lparr>success = True, transpiled_code = Some ''int x;'',
        warnings = [''Two-step conversion (VB -> VB.NET -> C#). Extensive testing required.''],
        errors = [], method_tag = ''rule-based''\<rparr>
   \<and> method_tag (fst (transpile_code unreachable
        \<lparr>code = ''Dim x As Integer'', source_lang = ''vbnet'', target_lang = ''csharp'',
         use_mcp = False, mcp_config = None\<rparr>)) = ''rule-based''"
proof -
  have "transpile_rule_based ''Dim x As Integer'' ''vb'' ''csharp'' =
          (''int x;'', [''Two-step conversion (VB -> VB.NET -> C#). Extensive testing required.''], [])"
    by (simp add: rule_based_two_step normalize_def remove_char_def lower_def dialect_of_def
        char_facts vb_dim_x vbnet_dim_x)
  then show ?thesis
    by (simp add: transpile_code_def rule_based_response_def method_rule_based
        split: prod.splits)
qed

subsection \<open>Scenario A\<close>

text \<open>
  The rule for \<open>Public Class\<close> writes \<open>public class Calculator {\<close>; the rule for
  \<open>Class\<close>, which comes after it and ignores letter case, matches the
  \<open>class Calculator\<close> just written and adds a second brace.
\<close>

lemma class_matches_twice:
  "re_sub (seqs [Bnd, lit ''Public Class '', word_grp 1])
       [TLit ''public class '', TGrp 1, TLit '' {'']
       (''Public Class Calculator'' @ [CHR 0x0A] @ ''End Class'') vbnet_flags
     = ''public class Calculator {'' @ [CHR 0x0A] @ ''End Class''
   \<and> re_sub (seqs [Bnd, lit ''Class '', word_grp 1])
       [TLit ''class '', TGrp 1, TLit '' {'']
       (''public class Calculator {'' @ [CHR 0x0A] @ ''End Class'') vbnet_flags
     = ''public class Calculator { {'' @ [CHR 0x0A] @ ''End Class''"
  by (simp add: vbnet_flags_def engine_defs char_facts)

text \<open>
  C6 fails on the code. The two lines \<open>Public Class Calculator\<close> and \<open>End Class\<close>,
  translated from modernized to C-family, give the two lines
  \<open>public class Calculator { {\<close> and \<open>}\<close>, in every world, with or without
  augmentation, with the one warning that advises to review type conversions. The text
  contains \<open>public class Calculator\<close>, but it holds two opening braces and one closing
  brace: the \<open>}\<close> written for \<open>End Class\<close> closes the second of them, and nothing
  closes the class body. The second brace comes from the rule for \<open>Class\<close>, applied to
  the line the rule for \<open>Public Class\<close> has written.
\<close>

theorem scenario_a_unbalanced:
  "fst (transpile_code w
        \<lparr>code = ''Public Class Calculator'' @ [CHR 0x0A] @ ''End Class'',
         source_lang = ''vbnet'', target_lang = ''csharp'', use_mcp = u, mcp_config = cfg\<rparr>)
     = \<lparr>success = True,
        transpiled_code = Some (''public class Calculator { {'' @ [CHR 0x0A] @ ''}''),
        warnings = [''Converted VB.NET to C#. Review Option Strict and type conversions.''],
        errors = [], method_tag = ''rule-based''\<rparr>
   \<and> count_list (''public class Calculator { {'' @ [CHR 0x0A] @ ''}'') (CHR ''{'') = 2
   \<and> count_list (''public class Calculator { {'' @ [CHR 0x0A] @ ''}'') (CHR ''}'') = 1
   \<and> re_sub (seqs [Bnd, lit ''Class '', word_grp 1])
       [TLit ''class '', TGrp 1, TLit '' {'']
       (''public class Calculator {'' @ [CHR 0x0A] @ ''End Class'') vbnet_flags
     = ''public class Calculator { {'' @ [CHR 0x0A] @ ''End Class''"
proof -
  let ?r = "\<lparr>code = ''Public Class Calculator'' @ [CHR 0x0A] @ ''End Class'',
         source_lang = ''vbnet'', target_lang = ''csharp'', use_mcp = u, mcp_config = cfg\<rparr>"
  have n: "normalize ''vbnet'' = ''vbnet''" "normalize ''csharp'' = ''csharp''"
    by (simp_all add: normalize_def remove_char_def lower_def char_facts)
  have "dialect_of (normalize (source_lang ?r)) = Some Modernized"
    by (simp add: n dialect_of_def)
  then have "parse_code_to_ast w (code ?r) (source_lang ?r) = None"
    by (simp add: ungrammared_no_tree)
  then have "transpile_code w ?r = (rule_based_response ?r, [])"
    by (rule no_tree_nothing_sent)
  moreover have "transpile_rule_based (code ?r) ''vbnet'' ''csharp'' =
      (''public class Calculator { {'' @ [CHR 0x0A] @ ''}'',
       [''Converted VB.NET to C#. Review Option Strict and type conversions.''], [])"
    using vbnet_calculator by (simp add: transpile_rule_based_def n)
  ultimately have "fst (transpile_code w ?r)
     = \<lparr>success = True,
        transpiled_code = Some (''public class Calculator { {'' @ [CHR 0x0A] @ ''}''),
        warnings = [''Converted VB.NET to C#. Review Option Strict and type conversions.''],
        errors = [], method_tag = ''rule-based''\<rparr>"
    by (simp add: rule_based_response_def)
  moreover have "count_list (''public class Calculator { {'' @ [CHR 0x0A] @ ''}'') (CHR ''{'') = 2"
    by simp
  moreover have "count_list (''public class Calculator { {'' @ [CHR 0x0A] @ ''}'') (CHR ''}'') = 1"
    by simp
  ultimately show ?thesis using class_matches_twice by blast
qed

subsection \<open>Augmentation\<close>






text \<open>
  C9. A request whose source tag names the legacy or the modernized dialect sends
  nothing to the agent, whatever the augmentation flag and the connection parameters:
  the answer is the rule-based one, and its method tag is never \<open>mcp-ai\<close>.
\<close>

theorem ungrammared_source_never_augmented:
  assumes "dialect_of (normalize (source_lang request)) = Some Legacy
         \<or> dialect_of (normalize (source_lang request)) = Some Modernized"
  shows "parse_code_to_ast w (code request) (source_lang request) = None
       \<and> transpile_code w request = (rule_based_response request, [])
       \<and> method_tag (fst (transpile_code w request)) = ''rule-based''
       \<and> method_tag (fst (transpile_code w request)) \<noteq> ''mcp-ai''"
proof -
  have n: "parse_code_to_ast w (code request) (source_lang request) = None"
    using assms by (rule ungrammared_no_tree)
  then have "transpile_code w request = (rule_based_response request, [])"
    by (rule no_tree_nothing_sent)
  with n show ?thesis by (simp add: method_rule_based)
qed

theorem ungrammared_source_never_augmented_witness:
  "dialect_of (normalize ''VB.NET'') = Some Modernized
   \<and> augmentation_enabled
       \<lparr>code = ''Public Class Test'', source_lang = ''VB.NET'', target_lang = ''csharp'',
        use_mcp = True, mcp_config = Some [(''server_url'', JStr ''https://agent.example/api'')]\<rparr>
   \<and> snd (transpile_code answering
        \<lparr>code = ''Public Class Test'', source_lang = ''VB.NET'', target_lang = ''csharp'',
         use_mcp = True, mcp_config = Some [(''server_url'', JStr ''https://agent.example/api'')]\<rparr>) = []
   \<and> method_tag (fst (transpile_code answering
        \<lparr>code = ''Public Class Test'', source_lang = ''VB.NET'', target_lang = ''csharp'',
         use_mcp = True, mcp_config = Some [(''server_url'', JStr ''https://agent.example/api'')]\<rparr>))
       = ''rule-based''"
proof -
  let ?r = "\<lparr>code = ''Public Class Test'', source_lang = ''VB.NET'', target_lang = ''csharp'',
        use_mcp = True, mcp_config = Some [(''server_url'', JStr ''https://agent.example/api'')]\<rparr>"
  have d: "dialect_of (normalize ''VB.NET'') = Some Modernized"
    by (simp add: normalize_def remove_char_def lower_def dialect_of_def char_facts)
  then have h: "dialect_of (normalize (source_lang ?r)) = Some Legacy
         \<or> dialect_of (normalize (source_lang ?r)) = Some Modernized"
    by simp
  show ?thesis
    using d ungrammared_source_never_augmented [OF h, of answering]
    by (simp add: augmentation_enabled_def method_rule_based)
qed

subsection \<open>Validation and the placeholder tree\<close>

lemma validate_parsed:
  assumes "parse_code_to_ast w src lang = Some a"
  shows "validate_code w src lang =
     \<lparr>valid = True, v_errors = [],
      v_warnings = (if length (strip src) < 10
                    then [\<lparr>message = ''Code is very short'', issue_line = Some 0\<rparr>] else [])\<rparr>"
  using assms by (simp add: validate_code_def)

lemma validate_no_grammar:
  assumes "lower lang \<notin> set [''c#'', ''csharp'', ''c_sharp'']"
  shows "validate_code w src lang =
     \<lparr>valid = True, v_errors = [],
      v_warnings = [\<lparr>message = ''Parser not available for this language. Basic validation only.'',
                     issue_line = None\<rparr>]\<rparr>"
  using assms by (simp add: validate_code_def no_grammar)

text \<open>
  C8 fails on the code: validating the five characters \<open>x = 1\<close> as VB.NET returns before
  the length check, so the answer is valid with the parser warning alone, and the
  short-code warning is missing.
\<close>

theorem validate_short_vbnet:
  "validate_code w ''x = 1'' ''vbnet'' =
     \<lparr>valid = True, v_errors = [],
      v_warnings = [\<lparr>message = ''Parser not available for this language. Basic validation only.'',
                     issue_line = None\<rparr>]\<rparr>
   \<and> length (strip ''x = 1'') < 10"
proof -
  have "lower ''vbnet'' \<notin> set [''c#'', ''csharp'', ''c_sharp'']"
    by (simp add: lower_def char_facts)
  then show ?thesis by (simp add: validate_no_grammar strip_def char_facts)
qed

lemma mock_summary:
  "build_semantic_tree (mock_ast w src) =
     \<lparr>classes = [\<lparr>name = ''Parsed structure'', line = 0\<rparr>], methods = [], properties = [],
      imports' = []\<rparr>"
proof -
  have a: "\<not> contains ''class'' (lower ''compilation_unit'')"
    and b: "\<not> contains ''method'' (lower ''compilation_unit'')"
    and c: "\<not> contains ''function'' (lower ''compilation_unit'')"
    and d: "\<not> contains ''property'' (lower ''compilation_unit'')"
    and e: "\<not> contains ''field'' (lower ''compilation_unit'')"
    and f: "contains ''class'' (lower ''class_declaration'')"
    by (simp_all add: lower_def char_facts)
  show ?thesis
    by (simp add: build_semantic_tree_def mock_ast_def visit_def make_entry_def a b c d e f
        del: contains.simps)
qed

text \<open>
  C10. For a dialect without a grammar, parse returns the placeholder tree, whose single
  child has the kind \<open>class_declaration\<close>; so the summary has exactly one declared type,
  named \<open>Parsed structure\<close> at line 0, and no callable member, data member or import,
  whatever the text.
\<close>

theorem placeholder_summary:
  assumes "lower lang \<notin> set [''c#'', ''csharp'', ''c_sharp'']"
  shows "p_success (parse_code w src lang)
       \<and> p_ast (parse_code w src lang) = Some (mock_ast w src)
       \<and> map get_type (get_children (mock_ast w src)) = [''class_declaration'']
       \<and> p_semantic_tree (parse_code w src lang) =
           Some \<lparr>classes = [\<lparr>name = ''Parsed structure'', line = 0\<rparr>],
                 methods = [], properties = [], imports' = []\<rparr>"
  using assms by (simp add: parse_code_def no_grammar mock_summary) (simp add: mock_ast_def)

theorem placeholder_summary_witness:
  "lower ''vbnet'' \<notin> set [''c#'', ''csharp'', ''c_sharp'']
   \<and> p_semantic_tree (parse_code answering ''Module Empty'' ''vbnet'') =
         Some \<lparr>classes = [\<lparr>name = ''Parsed structure'', line = 0\<rparr>],
               methods = [], properties = [], imports' = []\<rparr>"
proof -
  have h: "lower ''vbnet'' \<notin> set [''c#'', ''csharp'', ''c_sharp'']"
    by (simp add: lower_def char_facts)
  show ?thesis using h placeholder_summary [OF h, of answering "''Module Empty''"] by simp
qed


subsection \<open>The caps of the tree normalizer\<close>

lemma tree_to_dict_bounds:
  assumes "cur \<le> mx" and "(d', n) \<in> set (nodes_at d (tree_to_dict uuid p node mx cur))"
  shows "d' + cur \<le> mx + d \<and> length (get_children n) \<le> 20 \<and> n \<noteq> Max_depth_reached"
  using assms
proof (induction uuid p node mx cur arbitrary: d d' n rule: tree_to_dict.induct)
  case (1 uuid path ty s e t cs mx cur)
  show ?case
  proof (cases "length cs > 0 \<and> cur < mx")
    case False
    with "1.prems" show ?thesis by auto
  next
    case True
    let ?kids = "map (\<lambda>(i, child). tree_to_dict uuid (path @ [i]) child mx (cur + 1))
                   (enumerate 0 (take 20 cs))"
    have root: "tree_to_dict uuid path (TSNode ty s e t cs) mx cur =
            Node (take 8 (uuid path)) ty s e (case t of Some txt \<Rightarrow> take 100 txt | None \<Rightarrow> '''') ?kids"
      using True "1.prems"(1) by simp
    from "1.prems"(2) consider
        (here) "d' = d" "n = tree_to_dict uuid path (TSNode ty s e t cs) mx cur"
      | (below) k where "k \<in> set ?kids" "(d', n) \<in> set (nodes_at (Suc d) k)"
      unfolding root by auto
    then show ?thesis
    proof cases
      case here
      then show ?thesis using "1.prems"(1) by (simp add: root)
    next
      case below
      from below(1) obtain i child where ic: "(i, child) \<in> set (enumerate 0 (take 20 cs))"
          "k = tree_to_dict uuid (path @ [i]) child mx (cur + 1)"
        by auto
      have "d' + (cur + 1) \<le> mx + Suc d \<and> length (get_children n) \<le> 20 \<and> n \<noteq> Max_depth_reached"
        using "1.IH" True "1.prems"(1) below(2) ic
        by fastforce
      then show ?thesis by simp
    qed
  qed
qed

text \<open>
  C4. In the tree the normalizer returns (depth cap 50, child cap 20, from depth 0) no
  node lies deeper than 50 and no node has more than 20 children; a sentinel has no
  children.
\<close>

theorem normalizer_caps:
  "\<forall>(d, n) \<in> set (nodes_at 0 (tree_to_dict uuid path node 50 0)).
     d \<le> 50 \<and> length (get_children n) \<le> 20 \<and> (n = Max_depth_reached \<longrightarrow> get_children n = [])"
proof -
  have "d \<le> 50 \<and> length (get_children n) \<le> 20 \<and> (n = Max_depth_reached \<longrightarrow> get_children n = [])"
    if "(d, n) \<in> set (nodes_at 0 (tree_to_dict uuid path node 50 0))" for d n
    using tree_to_dict_bounds [OF _ that] by simp
  then show ?thesis by blast
qed

lemma wide_truncated:
  "length (get_children (tree_to_dict u [] (wide_tree 25) 50 0)) = 20"
  by (simp add: wide_tree_def)

lemma deep_truncated:
  "length (nodes_at 0 (tree_to_dict (\<lambda>p. ''1b4e28ba'') [] (deep_tree 60) 50 0)) = 51"
  by code_simp

theorem normalizer_caps_witness:
  "length (get_children (tree_to_dict (\<lambda>p. ''1b4e28ba'') [] (wide_tree 25) 50 0)) = 20
   \<and> length (nodes_at 0 (tree_to_dict (\<lambda>p. ''1b4e28ba'') [] (deep_tree 60) 50 0)) = 51
   \<and> list_all (\<lambda>(d, n). d \<le> 50 \<and> length (get_children n) \<le> 20)
        (nodes_at 0 (tree_to_dict (\<lambda>p. ''1b4e28ba'') [] (deep_tree 60) 50 0))"
  using normalizer_caps [of "\<lambda>p. ''1b4e28ba''" "[]" "deep_tree 60"]
  by (simp add: wide_truncated deep_truncated list_all_iff case_prod_unfold)

subsection \<open>The semantic summarizer\<close>

lemma visit_classify:
  "visit node sem =
     (case classify (get_type node) of
        None \<Rightarrow> sem
      | Some Declared_type \<Rightarrow> extend_summary sem [make_entry node] [] []
      | Some Callable_member \<Rightarrow> extend_summary sem [] [make_entry node] []
      | Some Data_member \<Rightarrow> extend_summary sem [] [] [make_entry node])"
  by (simp add: visit_def classify_def extend_summary_def Let_def)

lemma visit_entries:
  "visit node sem =
     extend_summary sem
       (map make_entry (filter (\<lambda>n. classify (get_type n) = Some Declared_type) [node]))
       (map make_entry (filter (\<lambda>n. classify (get_type n) = Some Callable_member) [node]))
       (map make_entry (filter (\<lambda>n. classify (get_type n) = Some Data_member) [node]))"
  by (cases "classify (get_type node)")
     (auto simp: visit_classify extend_summary_def split: category.splits)

lemma extend_extend:
  "extend_summary (extend_summary sem a b c) a' b' c' = extend_summary sem (a @ a') (b @ b') (c @ c')"
  by (simp add: extend_summary_def)

lemma fold_traverse:
  assumes "\<And>c sem. c \<in> set cs \<Longrightarrow>
     traverse c sem = extend_summary sem (entries_of Declared_type c)
       (entries_of Callable_member c) (entries_of Data_member c)"
  shows "fold traverse cs sem =
     extend_summary sem (concat (map (entries_of Declared_type) cs))
       (concat (map (entries_of Callable_member) cs)) (concat (map (entries_of Data_member) cs))"
  using assms
proof (induction cs arbitrary: sem)
  case Nil
  show ?case by (simp add: extend_summary_def)
next
  case (Cons c cs)
  then show ?case by (simp add: extend_extend)
qed

lemma entries_of_Node:
  "entries_of k (Node i ty s e t cs) =
     map make_entry (filter (\<lambda>n. classify (get_type n) = Some k) [Node i ty s e t cs])
     @ concat (map (entries_of k) cs)"
  by (simp add: entries_of_def [abs_def] map_concat filter_concat comp_def)

lemma traverse_entries:
  "traverse t sem = extend_summary sem (entries_of Declared_type t)
     (entries_of Callable_member t) (entries_of Data_member t)"
proof (induction t arbitrary: sem)
  case (Node i ty s e t cs)
  have "fold traverse cs sem' =
     extend_summary sem' (concat (map (entries_of Declared_type) cs))
       (concat (map (entries_of Callable_member) cs)) (concat (map (entries_of Data_member) cs))"
    for sem'
    by (rule fold_traverse) (rule Node.IH)
  then show ?case
    by (simp only: traverse.simps visit_entries extend_extend entries_of_Node)
next
  case Max_depth_reached
  show ?case
    by (simp only: traverse.simps visit_entries entries_of_def preorder.simps)
qed

lemma exclusive_filters:
  assumes "\<And>x. \<not> (P x \<and> Q x)" and "\<And>x. \<not> (P x \<and> R x)" and "\<And>x. \<not> (Q x \<and> R x)"
  shows "length (filter P xs) + length (filter Q xs) + length (filter R xs) \<le> length xs"
proof (induction xs)
  case Nil
  show ?case by simp
next
  case (Cons x xs)
  with assms [of x] show ?case by auto
qed

lemma sentinel_unclassified: "classify (get_type Max_depth_reached) = None"
proof -
  have "\<not> contains ''class'' (lower ''max_depth_reached'')"
    and "\<not> contains ''method'' (lower ''max_depth_reached'')"
    and "\<not> contains ''function'' (lower ''max_depth_reached'')"
    and "\<not> contains ''property'' (lower ''max_depth_reached'')"
    and "\<not> contains ''field'' (lower ''max_depth_reached'')"
    by (simp_all add: lower_def char_facts)
  then show ?thesis by (simp add: classify_def del: contains.simps)
qed

text \<open>
  C7. The summary lists, for each category, the entries of the nodes that the
  classification rule (case-folded kind containing \<open>class\<close>; else \<open>method\<close> or
  \<open>function\<close>; else \<open>property\<close> or \<open>field\<close>) puts in it, in pre-order, and no imports;
  a node is counted once at most; a tree without a matching node gives four empty
  sequences; the sentinel matches no category.
\<close>

theorem summarizer_classifies:
  "build_semantic_tree t =
     \<lparr>classes = entries_of Declared_type t, methods = entries_of Callable_member t,
      properties = entries_of Data_member t, imports' = []\<rparr>
   \<and> length (classes (build_semantic_tree t)) + length (methods (build_semantic_tree t))
       + length (properties (build_semantic_tree t)) \<le> length (preorder t)
   \<and> ((\<forall>n \<in> set (preorder t). classify (get_type n) = None) \<longrightarrow>
        build_semantic_tree t = empty_summary)
   \<and> classify (get_type Max_depth_reached) = None"
proof -
  have eq: "build_semantic_tree t =
     \<lparr>classes = entries_of Declared_type t, methods = entries_of Callable_member t,
      properties = entries_of Data_member t, imports' = []\<rparr>"
    by (simp add: build_semantic_tree_def traverse_entries extend_summary_def)
  have "length (filter (\<lambda>n. classify (get_type n) = Some Declared_type) (preorder t))
      + length (filter (\<lambda>n. classify (get_type n) = Some Callable_member) (preorder t))
      + length (filter (\<lambda>n. classify (get_type n) = Some Data_member) (preorder t))
      \<le> length (preorder t)"
    by (rule exclusive_filters) simp_all
  then have once: "length (classes (build_semantic_tree t)) + length (methods (build_semantic_tree t))
       + length (properties (build_semantic_tree t)) \<le> length (preorder t)"
    by (simp add: eq entries_of_def)
  have none: "build_semantic_tree t = empty_summary"
    if "\<forall>n \<in> set (preorder t). classify (get_type n) = None"
  proof -
    from that have "filter (\<lambda>n. classify (get_type n) = Some k) (preorder t) = []" for k
      by (simp add: filter_empty_conv)
    then show ?thesis by (simp add: eq entries_of_def empty_summary_def)
  qed
  from eq once none sentinel_unclassified show ?thesis by blast
qed

lemma plain_kinds:
  "classify ''compilation_unit'' = None" "classify ''expression_statement'' = None"
  "classify ''identifier'' = None"
proof -
  have "\<not> contains ''class'' (lower ''compilation_unit'')"
    "\<not> contains ''method'' (lower ''compilation_unit'')"
    "\<not> contains ''function'' (lower ''compilation_unit'')"
    "\<not> contains ''property'' (lower ''compilation_unit'')"
    "\<not> contains ''field'' (lower ''compilation_unit'')"
    "\<not> contains ''class'' (lower ''expression_statement'')"
    "\<not> contains ''method'' (lower ''expression_statement'')"
    "\<not> contains ''function'' (lower ''expression_statement'')"
    "\<not> contains ''property'' (lower ''expression_statement'')"
    "\<not> contains ''field'' (lower ''expression_statement'')"
    "\<not> contains ''class'' (lower ''identifier'')"
    "\<not> contains ''method'' (lower ''identifier'')"
    "\<not> contains ''function'' (lower ''identifier'')"
    "\<not> contains ''property'' (lower ''identifier'')"
    "\<not> contains ''field'' (lower ''identifier'')"
    by (simp_all add: lower_def char_facts)
  then show "classify ''compilation_unit'' = None" "classify ''expression_statement'' = None"
    "classify ''identifier'' = None"
    by (simp_all add: classify_def del: contains.simps)
qed

theorem summarizer_classifies_witness:
  "list_all (\<lambda>n. classify (get_type n) = None) (preorder plain_tree)
   \<and> length (preorder plain_tree) = 4
   \<and> build_semantic_tree plain_tree
       = \<lparr>classes = [], methods = [], properties = [], imports' = []\<rparr>"
proof -
  have h: "\<forall>n \<in> set (preorder plain_tree). classify (get_type n) = None"
    by (simp add: plain_tree_def plain_kinds sentinel_unclassified [simplified])
  then have "list_all (\<lambda>n. classify (get_type n) = None) (preorder plain_tree)"
    by (simp add: list_all_iff)
  moreover have "length (preorder plain_tree) = 4"
    by (simp add: plain_tree_def)
  moreover have "build_semantic_tree plain_tree = empty_summary"
    using summarizer_classifies [of plain_tree] h by blast
  ultimately show ?thesis by (simp add: empty_summary_def)
qed

lemma mixed_kinds:
  "classify ''Class_Declaration'' = Some Declared_type"
  "classify ''method_declaration'' = Some Callable_member"
  "classify ''field_declaration'' = Some Data_member"
  "classify ''class_method_field'' = Some Declared_type"
  "classify ''local_function_statement'' = Some Callable_member"
  "classify ''property_declaration'' = Some Data_member"
proof -
  have "contains ''class'' (lower ''Class_Declaration'')"
    "\<not> contains ''class'' (lower ''method_declaration'')"
    "contains ''method'' (lower ''method_declaration'')"
    "\<not> contains ''class'' (lower ''field_declaration'')"
    "\<not> contains ''method'' (lower ''field_declaration'')"
    "\<not> contains ''function'' (lower ''field_declaration'')"
    "contains ''field'' (lower ''field_declaration'')"
    "contains ''class'' (lower ''class_method_field'')"
    "\<not> contains ''class'' (lower ''local_function_statement'')"
    "contains ''function'' (lower ''local_function_statement'')"
    "\<not> contains ''class'' (lower ''property_declaration'')"
    "\<not> contains ''method'' (lower ''property_declaration'')"
    "\<not> contains ''function'' (lower ''property_declaration'')"
    "contains ''property'' (lower ''property_declaration'')"
    by (simp_all add: lower_def char_facts)
  then show "classify ''Class_Declaration'' = Some Declared_type"
    "classify ''method_declaration'' = Some Callable_member"
    "classify ''field_declaration'' = Some Data_member"
    "classify ''class_method_field'' = Some Declared_type"
    "classify ''local_function_statement'' = Some Callable_member"
    "classify ''property_declaration'' = Some Data_member"
    by (simp_all add: classify_def del: contains.simps)
qed

lemma mixed_summary:
  "build_semantic_tree mixed_tree =
     \<lparr>classes = [\<lparr>name = ''class A'', line = 0\<rparr>, \<lparr>name = ''static'', line = 5\<rparr>],
      methods = [\<lparr>name = ''void F()'', line = 1\<rparr>, \<lparr>name = ''int G()'', line = 6\<rparr>],
      properties = [\<lparr>name = ''int x;'', line = 4\<rparr>, \<lparr>name = ''int P'', line = 8\<rparr>],
      imports' = []\<rparr>"
  by (simp add: build_semantic_tree_def traverse_entries extend_summary_def mixed_tree_def
      entries_of_def mixed_kinds plain_kinds make_entry_def)

section \<open>Letter case and word boundaries in the rules\<close>

subsection \<open>Letter case and the character classes\<close>

lemma code_point_char_of: "k < 256 \<Longrightarrow> code_point (char_of k) = k"
  by (simp add: code_point_def)

lemma code_point_inj: "code_point c = code_point d \<longleftrightarrow> c = d"
  by (simp add: code_point_def)

lemma code_point_lower:
  "code_point (lower_char c) =
     (if (65 \<le> code_point c \<and> code_point c \<le> 90)
         \<or> (192 \<le> code_point c \<and> code_point c \<le> 222 \<and> code_point c \<noteq> 215)
      then code_point c + 32 else code_point c)"
  by (simp add: lower_char_def code_point_char_of)

lemma lower_char_idem: "lower_char (lower_char c) = lower_char c"
  unfolding code_point_inj [symmetric] by (simp add: code_point_lower)

lemma is_word_lower: "is_word (lower_char c) = is_word c"
  unfolding is_word_def code_point_lower by auto

lemma is_space_lower: "is_space (lower_char c) = is_space c"
  unfolding is_space_def code_point_lower by auto

lemma code_point_newline: "code_point (CHR 0x0A) = 10"
  by (simp add: code_point_def)

lemma newline_lower: "lower_char c = CHR 0x0A \<longleftrightarrow> c = CHR 0x0A"
  unfolding code_point_inj [symmetric] code_point_newline code_point_lower by auto

lemma cmatch_lower: "ignorecase f \<Longrightarrow> cmatch f c (lower_char x) = cmatch f c x"
  by (cases c) (simp_all add: lower_char_idem is_word_lower is_space_lower newline_lower)

lemma lower_fold_char: "lower_char (fold_char c) = lower_char c"
  by (simp add: fold_char_def lower_char_idem)

lemma fold_char_lower:
  assumes "fold_char x = fold_char y"
  shows "lower_char x = lower_char y"
  using assms lower_fold_char [of x] lower_fold_char [of y] by simp

lemma cmatch_blind:
  assumes "ignorecase f" and "fold_char x = fold_char y"
  shows "cmatch f c x = cmatch f c y"
  using assms(1) fold_char_lower [OF assms(2)] cmatch_lower [of f c x] cmatch_lower [of f c y]
  by simp

lemma is_word_blind:
  assumes "fold_char x = fold_char y"
  shows "is_word x = is_word y"
  using fold_char_lower [OF assms] is_word_lower [of x] is_word_lower [of y] by simp

lemma newline_blind:
  assumes "fold_char x = fold_char y"
  shows "(x = CHR 0x0A) = (y = CHR 0x0A)"
  using fold_char_lower [OF assms] newline_lower [of x] newline_lower [of y] by simp

lemma fold_Cons:
  "fold_text (x # xs) = fold_text t \<longleftrightarrow>
     (\<exists>y ys. t = y # ys \<and> fold_char x = fold_char y \<and> fold_text xs = fold_text ys)"
  by (cases t) (auto simp: fold_text_def)

lemma fold_length: "fold_text s = fold_text t \<Longrightarrow> length s = length t"
  unfolding fold_text_def by (rule map_eq_imp_length_eq)

lemma fold_take: "fold_text (take n s) = take n (fold_text s)"
  by (simp add: fold_text_def take_map)

lemma fold_drop: "fold_text (drop n s) = drop n (fold_text s)"
  by (simp add: fold_text_def drop_map)

lemma fold_append: "fold_text (s @ t) = fold_text s @ fold_text t"
  by (simp add: fold_text_def)

subsection \<open>The matcher does not see letter case under \<open>IGNORECASE\<close>\<close>

lemma case_blindD:
  assumes "case_blind k k'" and "fold_state st = fold_state st'"
  shows "map_option fold_state (k st) = map_option fold_state (k' st')"
  using assms unfolding case_blind_def by blast

lemma orelse_blind:
  assumes "map_option fold_state a = map_option fold_state a'"
    and "map_option fold_state b = map_option fold_state b'"
  shows "map_option fold_state (case a of Some r \<Rightarrow> Some r | None \<Rightarrow> b)
       = map_option fold_state (case a' of Some r \<Rightarrow> Some r | None \<Rightarrow> b')"
  using assms by (cases a; cases a') simp_all

lemma rep_greedy_blind:
  assumes k: "case_blind k k'"
    and p: "\<And>x y. fold_char x = fold_char y \<Longrightarrow> p x = p y"
    and caps: "fold_caps caps = fold_caps caps'"
  shows "fold_text rest = fold_text rest' \<Longrightarrow> map_option fold_char prev = map_option fold_char prev' \<Longrightarrow>
         map_option fold_state (rep_greedy p n k prev rest caps)
           = map_option fold_state (rep_greedy p n k' prev' rest' caps')"
proof (induction rest arbitrary: rest' prev prev' n)
  case Nil
  then have "rest' = []" by (simp add: fold_text_def)
  with Nil caps show ?case
    by (auto intro!: case_blindD [OF k])
next
  case (Cons x xs)
  from Cons.prems(1) obtain y ys where r: "rest' = y # ys" "fold_char x = fold_char y" "fold_text xs = fold_text ys"
    by (auto simp: fold_Cons)
  have "map_option fold_state (k (prev, x # xs, caps)) = map_option fold_state (k' (prev', y # ys, caps'))"
    using Cons.prems r caps by (intro case_blindD [OF k]) simp
  then have stop: "map_option fold_state (if n = 0 then k (prev, x # xs, caps) else None)
      = map_option fold_state (if n = 0 then k' (prev', y # ys, caps') else None)"
    by simp
  have pxy: "p x = p y" using r(2) by (rule p)
  have rec: "map_option fold_state (rep_greedy p (n - 1) k (Some x) xs caps)
           = map_option fold_state (rep_greedy p (n - 1) k' (Some y) ys caps')"
    using r by (intro Cons.IH) simp_all
  show ?case
  proof (cases "p y")
    case True
    then show ?thesis
      unfolding r(1) using pxy orelse_blind [OF rec stop] by simp
  next
    case False
    then show ?thesis
      unfolding r(1) using pxy stop by simp
  qed
qed

lemma rep_lazy_blind:
  assumes k: "case_blind k k'"
    and p: "\<And>x y. fold_char x = fold_char y \<Longrightarrow> p x = p y"
    and caps: "fold_caps caps = fold_caps caps'"
  shows "fold_text rest = fold_text rest' \<Longrightarrow> map_option fold_char prev = map_option fold_char prev' \<Longrightarrow>
         map_option fold_state (rep_lazy p n k prev rest caps)
           = map_option fold_state (rep_lazy p n k' prev' rest' caps')"
proof (induction rest arbitrary: rest' prev prev' n)
  case Nil
  then have "rest' = []" by (simp add: fold_text_def)
  with Nil caps show ?case
    by (auto intro!: case_blindD [OF k])
next
  case (Cons x xs)
  from Cons.prems(1) obtain y ys where r: "rest' = y # ys" "fold_char x = fold_char y" "fold_text xs = fold_text ys"
    by (auto simp: fold_Cons)
  have "map_option fold_state (k (prev, x # xs, caps)) = map_option fold_state (k' (prev', y # ys, caps'))"
    using Cons.prems r caps by (intro case_blindD [OF k]) simp
  then have stop: "map_option fold_state (if n = 0 then k (prev, x # xs, caps) else None)
      = map_option fold_state (if n = 0 then k' (prev', y # ys, caps') else None)"
    by simp
  have pxy: "p x = p y" using r(2) by (rule p)
  have "map_option fold_state (rep_lazy p (n - 1) k (Some x) xs caps)
           = map_option fold_state (rep_lazy p (n - 1) k' (Some y) ys caps')"
    using r by (intro Cons.IH) simp_all
  then have more: "map_option fold_state (if p x then rep_lazy p (n - 1) k (Some x) xs caps else None)
           = map_option fold_state (if p y then rep_lazy p (n - 1) k' (Some y) ys caps' else None)"
    using pxy by simp
  show ?case
    unfolding r(1) rep_lazy.simps by (rule orelse_blind [OF stop more])
qed

lemma case_blindI:
  assumes "\<And>p r c p' r' c'. map_option fold_char p = map_option fold_char p' \<Longrightarrow>
      fold_text r = fold_text r' \<Longrightarrow> fold_caps c = fold_caps c' \<Longrightarrow>
      map_option fold_state (k (p, r, c)) = map_option fold_state (k' (p', r', c'))"
  shows "case_blind k k'"
  unfolding case_blind_def using assms by (auto simp del: map_option_eq_Some)

lemma at_boundary_blind:
  assumes "map_option fold_char p = map_option fold_char p'" and "fold_text r = fold_text r'"
  shows "at_boundary (p, r, c) = at_boundary (p', r', c')"
proof -
  have a: "(case p of None \<Rightarrow> False | Some x \<Rightarrow> is_word x)
         = (case p' of None \<Rightarrow> False | Some x \<Rightarrow> is_word x)"
    using assms(1) by (cases p; cases p') (auto dest: is_word_blind)
  have b: "(case r of [] \<Rightarrow> False | x # xs \<Rightarrow> is_word x)
         = (case r' of [] \<Rightarrow> False | x # xs \<Rightarrow> is_word x)"
    using assms(2) by (cases r; cases r') (auto simp: fold_text_def dest: is_word_blind)
  show ?thesis by (simp add: a b)
qed

lemma at_eol_blind:
  assumes "fold_text r = fold_text r'"
  shows "at_eol f (p, r, c) = at_eol f (p', r', c')"
  using assms by (cases r; cases r') (auto simp: fold_text_def dest: newline_blind)

lemma m_blind:
  assumes f: "ignorecase f"
  shows "case_blind k k' \<Longrightarrow> case_blind (m r f k) (m r f k')"
proof (induction r arbitrary: k k')
  case (Chr c)
  show ?case
  proof (rule case_blindI)
    fix p r cs p' r' cs'
    assume h: "map_option fold_char p = map_option fold_char p'" "fold_text r = fold_text r'"
      "fold_caps cs = fold_caps cs'"
    show "map_option fold_state (m (Chr c) f k (p, r, cs))
        = map_option fold_state (m (Chr c) f k' (p', r', cs'))"
    proof (cases r)
      case Nil
      with h(2) have "r' = []" by (simp add: fold_text_def)
      with Nil show ?thesis by simp
    next
      case (Cons x xs)
      with h(2) obtain y ys where r': "r' = y # ys" "fold_char x = fold_char y" "fold_text xs = fold_text ys"
        by (auto simp: fold_Cons)
      have "cmatch f c x = cmatch f c y" using f r'(2) by (rule cmatch_blind)
      moreover have "map_option fold_state (k (Some x, xs, cs))
          = map_option fold_state (k' (Some y, ys, cs'))"
        using r' h(3) by (intro case_blindD [OF Chr]) simp
      ultimately show ?thesis using Cons r'(1) by simp
    qed
  qed
next
  case (Rep c n greedy)
  have p: "cmatch f c x = cmatch f c y" if "fold_char x = fold_char y" for x y
    using f that by (rule cmatch_blind)
  show ?case
  proof (rule case_blindI)
    fix p r cs p' r' cs'
    assume h: "map_option fold_char p = map_option fold_char p'" "fold_text r = fold_text r'"
      "fold_caps cs = fold_caps cs'"
    show "map_option fold_state (m (Rep c n greedy) f k (p, r, cs))
        = map_option fold_state (m (Rep c n greedy) f k' (p', r', cs'))"
      using rep_greedy_blind [OF Rep p h(3) h(2) h(1), where n = n]
        rep_lazy_blind [OF Rep p h(3) h(2) h(1), where n = n]
      by simp
  qed
next
  case Bnd
  show ?case
  proof (rule case_blindI)
    fix p r cs p' r' cs'
    assume h: "map_option fold_char p = map_option fold_char p'" "fold_text r = fold_text r'"
      "fold_caps cs = fold_caps cs'"
    have "map_option fold_state (k (p, r, cs)) = map_option fold_state (k' (p', r', cs'))"
      using h by (intro case_blindD [OF Bnd]) simp
    then show "map_option fold_state (m Bnd f k (p, r, cs))
        = map_option fold_state (m Bnd f k' (p', r', cs'))"
      using at_boundary_blind [OF h(1) h(2), of cs cs'] by simp
  qed
next
  case Eol
  show ?case
  proof (rule case_blindI)
    fix p r cs p' r' cs'
    assume h: "map_option fold_char p = map_option fold_char p'" "fold_text r = fold_text r'"
      "fold_caps cs = fold_caps cs'"
    have "map_option fold_state (k (p, r, cs)) = map_option fold_state (k' (p', r', cs'))"
      using h by (intro case_blindD [OF Eol]) simp
    then show "map_option fold_state (m Eol f k (p, r, cs))
        = map_option fold_state (m Eol f k' (p', r', cs'))"
      using at_eol_blind [OF h(2), of f p cs p' cs'] by simp
  qed
next
  case Eps
  then show ?case by simp
next
  case (Seq a b)
  show ?case
    unfolding m.simps by (intro Seq.IH Seq.prems)
next
  case (Alt a b)
  show ?case
  proof (rule case_blindI)
    fix p r cs p' r' cs'
    assume h: "map_option fold_char p = map_option fold_char p'" "fold_text r = fold_text r'"
      "fold_caps cs = fold_caps cs'"
    then have st: "fold_state (p, r, cs) = fold_state (p', r', cs')" by simp
    have a: "map_option fold_state (m a f k (p, r, cs)) = map_option fold_state (m a f k' (p', r', cs'))"
      using Alt.IH(1) [OF Alt.prems] st by (rule case_blindD)
    have b: "map_option fold_state (m b f k (p, r, cs)) = map_option fold_state (m b f k' (p', r', cs'))"
      using Alt.IH(2) [OF Alt.prems] st by (rule case_blindD)
    show "map_option fold_state (m (Alt a b) f k (p, r, cs))
        = map_option fold_state (m (Alt a b) f k' (p', r', cs'))"
      unfolding m.simps by (rule orelse_blind [OF a b])
  qed
next
  case (Grp i a)
  show ?case
  proof (rule case_blindI)
    fix p r cs p' r' cs'
    assume h: "map_option fold_char p = map_option fold_char p'" "fold_text r = fold_text r'"
      "fold_caps cs = fold_caps cs'"
    let ?k = "\<lambda>(p1, r1, c1). k (p1, r1, (i, take (length r - length r1) r) # c1)"
    let ?k' = "\<lambda>(p1, r1, c1). k' (p1, r1, (i, take (length r' - length r1) r') # c1)"
    have "case_blind ?k ?k'"
    proof (rule case_blindI)
      fix p1 r1 c1 p1' r1' c1'
      assume g: "map_option fold_char p1 = map_option fold_char p1'" "fold_text r1 = fold_text r1'"
        "fold_caps c1 = fold_caps c1'"
      have "length r - length r1 = length r' - length r1'"
        using fold_length [OF h(2)] fold_length [OF g(2)] by simp
      then have "fold_text (take (length r - length r1) r) = fold_text (take (length r' - length r1') r')"
        using h(2) by (simp add: fold_take)
      then have "fold_state (p1, r1, (i, take (length r - length r1) r) # c1)
          = fold_state (p1', r1', (i, take (length r' - length r1') r') # c1')"
        using g by (simp add: fold_caps_def)
      then have "map_option fold_state (k (p1, r1, (i, take (length r - length r1) r) # c1))
          = map_option fold_state (k' (p1', r1', (i, take (length r' - length r1') r') # c1'))"
        by (rule case_blindD [OF Grp.prems])
      then show "map_option fold_state (?k (p1, r1, c1)) = map_option fold_state (?k' (p1', r1', c1'))"
        by simp
    qed
    then have kb: "case_blind (m a f ?k) (m a f ?k')" by (rule Grp.IH)
    have st: "fold_state (p, r, cs) = fold_state (p', r', cs')" using h by simp
    have "map_option fold_state (m a f ?k (p, r, cs)) = map_option fold_state (m a f ?k' (p', r', cs'))"
      using kb st by (rule case_blindD)
    then show "map_option fold_state (m (Grp i a) f k (p, r, cs))
        = map_option fold_state (m (Grp i a) f k' (p', r', cs'))"
      by simp
  qed
next
  case (Look a)
  have "case_blind Some Some" by (rule case_blindI) simp
  then have la: "case_blind (m a f Some) (m a f Some)" by (rule Look.IH)
  show ?case
  proof (rule case_blindI)
    fix p r cs p' r' cs'
    assume h: "map_option fold_char p = map_option fold_char p'" "fold_text r = fold_text r'"
      "fold_caps cs = fold_caps cs'"
    have st: "fold_state (p, r, cs) = fold_state (p', r', cs')" using h by simp
    have e: "map_option fold_state (m a f Some (p, r, cs)) = map_option fold_state (m a f Some (p', r', cs'))"
      using la st by (rule case_blindD)
    show "map_option fold_state (m (Look a) f k (p, r, cs))
        = map_option fold_state (m (Look a) f k' (p', r', cs'))"
    proof (cases "m a f Some (p, r, cs)")
      case None
      with e have "m a f Some (p', r', cs') = None" by simp
      with None show ?thesis by simp
    next
      case (Some u)
      with e obtain v where v: "m a f Some (p', r', cs') = Some v" "fold_state u = fold_state v"
        by (cases "m a f Some (p', r', cs')") auto
      obtain p1 r1 c1 where u: "u = (p1, r1, c1)" by (cases u)
      obtain p2 r2 c2 where w: "v = (p2, r2, c2)" by (cases v)
      from v(2) u w have "fold_caps c1 = fold_caps c2" by simp
      then have "fold_state (p, r, c1) = fold_state (p', r', c2)"
        using h by simp
      then have "map_option fold_state (k (p, r, c1)) = map_option fold_state (k' (p', r', c2))"
        by (rule case_blindD [OF Look.prems])
      then show ?thesis using Some v(1) u w by simp
    qed
  qed
qed

lemma match_here_blind:
  assumes "ignorecase f" and "fold_text s = fold_text s'"
    and "map_option fold_char prev = map_option fold_char prev'"
  shows "(match_here r f ma prev s = None \<and> match_here r f ma prev' s' = None)
       \<or> (\<exists>n caps caps'. match_here r f ma prev s = Some (n, caps)
            \<and> match_here r f ma prev' s' = Some (n, caps') \<and> fold_caps caps = fold_caps caps')"
proof -
  let ?k = "\<lambda>(p1, r1, c1). if ma \<and> length r1 = length s then None else Some (p1, r1, c1)"
  let ?k' = "\<lambda>(p1, r1, c1). if ma \<and> length r1 = length s' then None else Some (p1, r1, c1)"
  have len: "length s = length s'" using assms(2) by (rule fold_length)
  have "case_blind ?k ?k'"
  proof (rule case_blindI)
    fix p1 r1 c1 p1' r1' c1'
    assume g: "map_option fold_char p1 = map_option fold_char p1'" "fold_text r1 = fold_text r1'"
      "fold_caps c1 = fold_caps c1'"
    then show "map_option fold_state (?k (p1, r1, c1)) = map_option fold_state (?k' (p1', r1', c1'))"
      using len fold_length [OF g(2)] by simp
  qed
  then have kb: "case_blind (m r f ?k) (m r f ?k')" by (rule m_blind [OF assms(1)])
  have st: "fold_state (prev, s, []) = fold_state (prev', s', [])"
    using assms by (simp add: fold_caps_def)
  have e: "map_option fold_state (m r f ?k (prev, s, [])) = map_option fold_state (m r f ?k' (prev', s', []))"
    using kb st by (rule case_blindD)
  show ?thesis
  proof (cases "m r f ?k (prev, s, [])")
    case None
    with e have "m r f ?k' (prev', s', []) = None" by simp
    with None show ?thesis by (simp add: match_here_def)
  next
    case (Some u)
    with e obtain v where v: "m r f ?k' (prev', s', []) = Some v" "fold_state u = fold_state v"
      by (cases "m r f ?k' (prev', s', [])") auto
    obtain p1 r1 c1 where u: "u = (p1, r1, c1)" by (cases u)
    obtain p2 r2 c2 where w: "v = (p2, r2, c2)" by (cases v)
    from v(2) u w have "fold_text r1 = fold_text r2" "fold_caps c1 = fold_caps c2" by simp_all
    then show ?thesis
      using Some v(1) u w len fold_length [of r1 r2] by (simp add: match_here_def)
  qed
qed

lemma map_of_fold_caps: "map_of (fold_caps caps) i = map_option fold_text (map_of caps i)"
  by (induction caps) (auto simp: fold_caps_def)

lemma expand_blind:
  assumes "fold_caps caps = fold_caps caps'"
  shows "fold_text (expand tpl caps) = fold_text (expand tpl caps')"
proof -
  have "fold_text (expand_item caps it) = fold_text (expand_item caps' it)" for it
  proof (cases it)
    case (TLit s)
    then show ?thesis by simp
  next
    case (TGrp i)
    have "map_option fold_text (map_of caps i) = map_option fold_text (map_of caps' i)"
      using assms by (simp add: map_of_fold_caps [symmetric])
    then show ?thesis
      using TGrp by (cases "map_of caps i"; cases "map_of caps' i") (simp_all add: fold_text_def)
  qed
  note items = this
  have "fold_text (concat (map (expand_item caps) tpl)) = fold_text (concat (map (expand_item caps') tpl))"
    by (induction tpl) (simp_all add: fold_append items)
  then show ?thesis by (simp add: expand_def)
qed

lemma fold_last:
  assumes "fold_text u = fold_text v" and "u \<noteq> []"
  shows "fold_char (last u) = fold_char (last v)"
proof -
  from assms have "v \<noteq> []" by (auto simp: fold_text_def)
  with assms(2) have "fold_char (last u) = last (fold_text u)" "fold_char (last v) = last (fold_text v)"
    by (simp_all add: fold_text_def last_map)
  with assms(1) show ?thesis by simp
qed

lemma re_sub_from_blind:
  "ignorecase f \<Longrightarrow> fold_text s = fold_text s' \<Longrightarrow> map_option fold_char prev = map_option fold_char prev' \<Longrightarrow>
     fold_text (re_sub_from r f tpl ma prev s) = fold_text (re_sub_from r f tpl ma prev' s')"
proof (induction r f tpl ma prev s arbitrary: prev' s' rule: re_sub_from.induct)
  case (1 r f tpl ma prev)
  then have s': "s' = []" by (simp add: fold_text_def)
  from match_here_blind [OF "1.prems", of r ma]
  consider (none) "match_here r f ma prev [] = None" "match_here r f ma prev' s' = None"
    | (some) n caps caps' where "match_here r f ma prev [] = Some (n, caps)"
        "match_here r f ma prev' s' = Some (n, caps')" "fold_caps caps = fold_caps caps'"
    by auto
  then show ?case
  proof cases
    case none
    then show ?thesis using s' by simp
  next
    case some
    then show ?thesis using s' expand_blind [OF some(3), of tpl] by simp
  qed
next
  case (2 r f tpl ma prev x xs)
  note f = "2.prems"(1)
  from "2.prems"(2) obtain y ys where s': "s' = y # ys" "fold_char x = fold_char y" "fold_text xs = fold_text ys"
    by (auto simp: fold_Cons)
  have sx: "map_option fold_char (Some x) = map_option fold_char (Some y)"
    using s'(2) by simp
  from match_here_blind [OF "2.prems", of r ma] s'(1)
  consider (none) "match_here r f ma prev (x # xs) = None" "match_here r f ma prev' (y # ys) = None"
    | (some) n caps caps' where "match_here r f ma prev (x # xs) = Some (n, caps)"
        "match_here r f ma prev' (y # ys) = Some (n, caps')" "fold_caps caps = fold_caps caps'"
    by auto
  then show ?case
  proof cases
    case none
    have "fold_text (re_sub_from r f tpl False (Some x) xs) = fold_text (re_sub_from r f tpl False (Some y) ys)"
      using none(1) f s'(3) sx by (rule "2.IH"(1))
    then show ?thesis using none s' by (simp add: fold_text_def)
  next
    case some
    have ex: "fold_text (expand tpl caps) = fold_text (expand tpl caps')"
      using some(3) by (rule expand_blind)
    show ?thesis
    proof (cases "n = 0")
      case True
      show ?thesis
      proof (cases ma)
        case True
        have "fold_text (re_sub_from r f tpl False (Some x) xs) = fold_text (re_sub_from r f tpl False (Some y) ys)"
          using some(1) refl \<open>n = 0\<close> True f s'(3) sx by (rule "2.IH"(2))
        then show ?thesis using some s' True \<open>n = 0\<close> by (simp add: fold_text_def)
      next
        case False
        have "fold_text (re_sub_from r f tpl True prev (x # xs)) = fold_text (re_sub_from r f tpl True prev' (y # ys))"
          using some(1) refl \<open>n = 0\<close> False f "2.prems"(2) [unfolded s'(1)] "2.prems"(3)
          by (rule "2.IH"(3))
        then show ?thesis using some s'(1) False \<open>n = 0\<close> ex by (simp add: fold_append)
      qed
    next
      case False
      have t: "fold_text (take n (x # xs)) = fold_text (take n (y # ys))"
        using "2.prems"(2) s'(1) by (simp only: fold_take)
      have "take n (x # xs) \<noteq> []" using False by simp
      then have l: "map_option fold_char (Some (last (take n (x # xs))))
          = map_option fold_char (Some (last (take n (y # ys))))"
        using fold_last [OF t] by simp
      have d: "fold_text (drop n (x # xs)) = fold_text (drop n (y # ys))"
        using "2.prems"(2) s'(1) by (simp only: fold_drop)
      have "fold_text (re_sub_from r f tpl False (Some (last (take n (x # xs)))) (drop n (x # xs)))
          = fold_text (re_sub_from r f tpl False (Some (last (take n (y # ys)))) (drop n (y # ys)))"
        using some(1) refl False f d l by (rule "2.IH"(4))
      then show ?thesis using some s'(1) False ex by (simp add: fold_append)
    qed
  qed
qed

lemma re_sub_blind:
  assumes "ignorecase f" and "fold_text s = fold_text s'"
  shows "fold_text (re_sub r tpl s f) = fold_text (re_sub r tpl s' f)"
  unfolding re_sub_def using assms by (intro re_sub_from_blind) simp_all

lemma apply_rules_blind:
  assumes "ignorecase f"
  shows "fold_text s = fold_text s' \<Longrightarrow> fold_text (apply_rules table f s) = fold_text (apply_rules table f s')"
proof (induction table arbitrary: s s')
  case Nil
  then show ?case by (simp add: apply_rules_def)
next
  case (Cons rule table)
  obtain r tpl where rule: "rule = (r, tpl)" by (cases rule)
  have "fold_text (re_sub r tpl s f) = fold_text (re_sub r tpl s' f)"
    using assms Cons.prems by (rule re_sub_blind)
  then have "fold_text (apply_rules table f (re_sub r tpl s f)) = fold_text (apply_rules table f (re_sub r tpl s' f))"
    by (rule Cons.IH)
  then show ?case by (simp add: apply_rules_def rule)
qed


subsection \<open>Where a match can start and end\<close>

lemma space_not_word: "is_space c \<Longrightarrow> \<not> is_word c"
  by (auto simp: is_space_def is_word_def)

lemma lit_nonword:
  assumes "\<not> is_word c" and "cmatch f (Lit c) x"
  shows "\<not> is_word x"
proof (cases "ignorecase f")
  case True
  with assms(2) have "lower_char x = lower_char c" by simp
  then have "is_word x = is_word c"
    using is_word_lower [of x] is_word_lower [of c] by simp
  with assms(1) show ?thesis by simp
next
  case False
  with assms show ?thesis by simp
qed

lemma rep_greedy_cong_len:
  assumes "\<And>p' r'. length r' \<le> length rest \<Longrightarrow> k (p', r', caps) = k' (p', r', caps)"
  shows "rep_greedy p n k prev rest caps = rep_greedy p n k' prev rest caps"
  using assms
proof (induction rest arbitrary: prev n)
  case Nil
  then show ?case by simp
next
  case (Cons x xs)
  have "rep_greedy p (n - 1) k (Some x) xs caps = rep_greedy p (n - 1) k' (Some x) xs caps"
    by (rule Cons.IH) (simp add: Cons.prems)
  moreover have "k (prev, x # xs, caps) = k' (prev, x # xs, caps)"
    by (simp add: Cons.prems)
  ultimately show ?case by (simp split: option.splits)
qed

lemma rep_lazy_cong_len:
  assumes "\<And>p' r'. length r' \<le> length rest \<Longrightarrow> k (p', r', caps) = k' (p', r', caps)"
  shows "rep_lazy p n k prev rest caps = rep_lazy p n k' prev rest caps"
  using assms
proof (induction rest arbitrary: prev n)
  case Nil
  then show ?case by simp
next
  case (Cons x xs)
  have "rep_lazy p (n - 1) k (Some x) xs caps = rep_lazy p (n - 1) k' (Some x) xs caps"
    by (rule Cons.IH) (simp add: Cons.prems)
  moreover have "k (prev, x # xs, caps) = k' (prev, x # xs, caps)"
    by (simp add: Cons.prems)
  ultimately show ?case by (cases "n = 0") (simp_all split: option.splits)
qed

text \<open>The matcher hands over only at positions with no more text left than it started with.\<close>

lemma m_cong_len:
  "(\<And>p' r' c'. length r' \<le> length r \<Longrightarrow> k (p', r', c') = k' (p', r', c')) \<Longrightarrow>
     m rx f k (p, r, c) = m rx f k' (p, r, c)"
proof (induction rx arbitrary: k k' p r c)
  case (Chr cl)
  then show ?case by (cases r) simp_all
next
  case (Rep cl n greedy)
  have "rep_greedy (cmatch f cl) n k p r c = rep_greedy (cmatch f cl) n k' p r c"
    by (rule rep_greedy_cong_len) (rule Rep.prems)
  moreover have "rep_lazy (cmatch f cl) n k p r c = rep_lazy (cmatch f cl) n k' p r c"
    by (rule rep_lazy_cong_len) (rule Rep.prems)
  ultimately show ?case by simp
next
  case Bnd
  then show ?case by simp
next
  case Eol
  then show ?case by simp
next
  case Eps
  then show ?case by simp
next
  case (Seq a b)
  have "m b f k (p', r', c') = m b f k' (p', r', c')" if "length r' \<le> length r" for p' r' c'
  proof (rule Seq.IH(2))
    fix p2 :: "char option" and r2 :: string and c2 :: "(nat \<times> string) list"
    assume "length r2 \<le> length r'"
    with that have "length r2 \<le> length r" by simp
    then show "k (p2, r2, c2) = k' (p2, r2, c2)" by (rule Seq.prems)
  qed
  then have "m a f (m b f k) (p, r, c) = m a f (m b f k') (p, r, c)"
    by (rule Seq.IH(1))
  then show ?case by simp
next
  case (Alt a b)
  have "m a f k (p, r, c) = m a f k' (p, r, c)" by (rule Alt.IH(1)) (rule Alt.prems)
  moreover have "m b f k (p, r, c) = m b f k' (p, r, c)" by (rule Alt.IH(2)) (rule Alt.prems)
  ultimately show ?case by (simp split: option.splits)
next
  case (Grp i a)
  let ?k = "\<lambda>(p1, r1, c1). k (p1, r1, (i, take (length r - length r1) r) # c1)"
  let ?k' = "\<lambda>(p1, r1, c1). k' (p1, r1, (i, take (length r - length r1) r) # c1)"
  have "m a f ?k (p, r, c) = m a f ?k' (p, r, c)"
    by (rule Grp.IH) (simp add: Grp.prems)
  then show ?case by simp
next
  case (Look a)
  have "k (p, r, c') = k' (p, r, c')" for c'
    by (rule Look.prems) simp
  then show ?case by (simp split: option.splits)
qed

lemma position_step:
  assumes "position_of prev s (p, x # xs, c)"
  shows "position_of prev s (Some x, xs, c')"
proof -
  let ?d = "length s - length (x # xs)"
  from assms have len: "length (x # xs) \<le> length s" and d: "x # xs = drop ?d s"
    by simp_all
  have suc: "length s - length xs = Suc ?d" using len by simp
  have "?d < length s" using len by simp
  then have "drop ?d s = s ! ?d # drop (Suc ?d) s" by (rule Cons_nth_drop_Suc [symmetric])
  with d have "x = s ! ?d" "xs = drop (Suc ?d) s" by simp_all
  then show ?thesis using len suc by (simp add: char_before_def)
qed

lemma rep_greedy_position:
  assumes "\<And>st. position_of prev0 s st \<Longrightarrow> k st = Some res \<Longrightarrow> Q"
  shows "position_of prev0 s (prev, rest, caps) \<Longrightarrow> rep_greedy p n k prev rest caps = Some res \<Longrightarrow> Q"
proof (induction rest arbitrary: prev n)
  case Nil
  from Nil.prems(2) have "k (prev, [], caps) = Some res" by (simp split: if_splits)
  with Nil.prems(1) show ?case by (rule assms)
next
  case (Cons x xs)
  have step: "position_of prev0 s (Some x, xs, caps)"
    using Cons.prems(1) by (rule position_step)
  from Cons.prems(2) consider
      "rep_greedy p (n - 1) k (Some x) xs caps = Some res"
    | "k (prev, x # xs, caps) = Some res"
    by (auto split: if_splits option.splits)
  then show ?case
  proof cases
    case 1
    with step show ?thesis by (rule Cons.IH)
  next
    case 2
    with Cons.prems(1) show ?thesis by (rule assms)
  qed
qed

lemma rep_lazy_position:
  assumes "\<And>st. position_of prev0 s st \<Longrightarrow> k st = Some res \<Longrightarrow> Q"
  shows "position_of prev0 s (prev, rest, caps) \<Longrightarrow> rep_lazy p n k prev rest caps = Some res \<Longrightarrow> Q"
proof (induction rest arbitrary: prev n)
  case Nil
  from Nil.prems(2) have "k (prev, [], caps) = Some res" by (simp split: if_splits)
  with Nil.prems(1) show ?case by (rule assms)
next
  case (Cons x xs)
  have step: "position_of prev0 s (Some x, xs, caps)"
    using Cons.prems(1) by (rule position_step)
  from Cons.prems(2) consider
      "rep_lazy p (n - 1) k (Some x) xs caps = Some res"
    | "k (prev, x # xs, caps) = Some res"
    by (auto split: if_splits option.splits)
  then show ?case
  proof cases
    case 1
    with step show ?thesis by (rule Cons.IH)
  next
    case 2
    with Cons.prems(1) show ?thesis by (rule assms)
  qed
qed

text \<open>A result of the matcher is what the continuation answered at a position of the text.\<close>

lemma m_position:
  "position_of prev0 s st \<Longrightarrow> m rx f k st = Some res \<Longrightarrow>
     (\<And>st'. position_of prev0 s st' \<Longrightarrow> k st' = Some res \<Longrightarrow> Q) \<Longrightarrow> Q"
proof (induction rx arbitrary: k st Q)
  case (Chr cl)
  obtain p r c where st: "st = (p, r, c)" by (cases st)
  from Chr.prems(2) st obtain x xs where r: "r = x # xs" and k: "k (Some x, xs, c) = Some res"
    by (cases r) (auto split: if_splits)
  have "position_of prev0 s (Some x, xs, c)"
    using Chr.prems(1) [unfolded st r] by (rule position_step)
  then show ?case using k by (rule Chr.prems(3))
next
  case (Rep cl n greedy)
  obtain p r c where st: "st = (p, r, c)" by (cases st)
  show ?case
  proof (cases greedy)
    case True
    with Rep.prems(2) st have "rep_greedy (cmatch f cl) n k p r c = Some res" by simp
    with Rep.prems(1) [unfolded st] show ?thesis
      by (rule rep_greedy_position [rotated]) (rule Rep.prems(3))
  next
    case False
    with Rep.prems(2) st have "rep_lazy (cmatch f cl) n k p r c = Some res" by simp
    with Rep.prems(1) [unfolded st] show ?thesis
      by (rule rep_lazy_position [rotated]) (rule Rep.prems(3))
  qed
next
  case Bnd
  then show ?case by (auto split: if_splits)
next
  case Eol
  then show ?case by (auto split: if_splits)
next
  case Eps
  then show ?case by simp
next
  case (Seq a b)
  from Seq.prems(2) have "m a f (m b f k) st = Some res" by simp
  with Seq.prems(1) show ?case
  proof (rule Seq.IH(1))
    fix st1
    assume "position_of prev0 s st1" "m b f k st1 = Some res"
    then show Q by (rule Seq.IH(2)) (rule Seq.prems(3))
  qed
next
  case (Alt a b)
  from Alt.prems(2) consider "m a f k st = Some res" | "m b f k st = Some res"
    by (auto split: option.splits)
  then show ?case
  proof cases
    case 1
    with Alt.prems(1) show ?thesis by (rule Alt.IH(1)) (rule Alt.prems(3))
  next
    case 2
    with Alt.prems(1) show ?thesis by (rule Alt.IH(2)) (rule Alt.prems(3))
  qed
next
  case (Grp i a)
  obtain p r c where st: "st = (p, r, c)" by (cases st)
  let ?k = "\<lambda>(p1, r1, c1). k (p1, r1, (i, take (length r - length r1) r) # c1)"
  from Grp.prems(2) st have "m a f ?k st = Some res" by simp
  with Grp.prems(1) show ?case
  proof (rule Grp.IH)
    fix st1
    assume a: "position_of prev0 s st1" "?k st1 = Some res"
    obtain p1 r1 c1 where st1: "st1 = (p1, r1, c1)" by (cases st1)
    from a(1) st1 have "position_of prev0 s (p1, r1, (i, take (length r - length r1) r) # c1)"
      by simp
    moreover from a(2) st1 have "k (p1, r1, (i, take (length r - length r1) r) # c1) = Some res"
      by simp
    ultimately show Q by (rule Grp.prems(3))
  qed
next
  case (Look a)
  obtain p r c where st: "st = (p, r, c)" by (cases st)
  from Look.prems(2) st obtain c1 where k: "k (p, r, c1) = Some res"
    by (auto split: option.splits)
  from Look.prems(1) st have "position_of prev0 s (p, r, c1)" by simp
  then show ?case using k by (rule Look.prems(3))
qed


lemma boundary_outside: "at_boundary (p, r, c) \<Longrightarrow> \<not> inside_word p r"
  by (cases p; cases r) (simp_all add: inside_word_def)

lemma newline_not_word: "\<not> is_word (CHR 0x0A)"
  by (simp add: is_word_def code_point_newline)

lemma rep_greedy_nonword:
  assumes pq: "\<And>x. p x \<Longrightarrow> \<not> is_word x"
    and agree: "\<And>p' r' c'. \<not> inside_word p' r' \<Longrightarrow> k (p', r', c') = k' (p', r', c')"
  shows "0 < n \<or> \<not> word_before prev \<Longrightarrow>
         rep_greedy p n k prev rest caps = rep_greedy p n k' prev rest caps"
proof (induction rest arbitrary: prev n)
  case Nil
  have "k (prev, [], caps) = k' (prev, [], caps)"
    by (rule agree) (simp add: inside_word_def)
  then show ?case by simp
next
  case (Cons x xs)
  have stop: "k (prev, x # xs, caps) = k' (prev, x # xs, caps)" if "n = 0"
    using that Cons.prems by (intro agree) (simp add: inside_word_def)
  have more: "rep_greedy p (n - 1) k (Some x) xs caps = rep_greedy p (n - 1) k' (Some x) xs caps"
    if "p x"
    using pq [OF that] by (intro Cons.IH) simp
  show ?case
    using stop more by (cases "p x"; cases "n = 0") (simp_all split: option.splits)
qed

lemma rep_lazy_nonword:
  assumes pq: "\<And>x. p x \<Longrightarrow> \<not> is_word x"
    and agree: "\<And>p' r' c'. \<not> inside_word p' r' \<Longrightarrow> k (p', r', c') = k' (p', r', c')"
  shows "0 < n \<or> \<not> word_before prev \<Longrightarrow>
         rep_lazy p n k prev rest caps = rep_lazy p n k' prev rest caps"
proof (induction rest arbitrary: prev n)
  case Nil
  have "k (prev, [], caps) = k' (prev, [], caps)"
    by (rule agree) (simp add: inside_word_def)
  then show ?case by simp
next
  case (Cons x xs)
  have stop: "k (prev, x # xs, caps) = k' (prev, x # xs, caps)" if "n = 0"
    using that Cons.prems by (intro agree) (simp add: inside_word_def)
  have more: "rep_lazy p (n - 1) k (Some x) xs caps = rep_lazy p (n - 1) k' (Some x) xs caps"
    if "p x"
    using pq [OF that] by (intro Cons.IH) simp
  show ?case
    using stop more by (cases "p x"; cases "n = 0") (simp_all split: option.splits)
qed

text \<open>
  A greedy run of characters, none of which may be followed by a word character once the
  run stops, ends where the run ends when the continuation accepts every later position.
\<close>

lemma rep_greedy_run:
  assumes pq: "\<And>y. \<not> p y \<Longrightarrow> \<not> is_word y"
    and agree: "\<And>p' r' c'. \<not> inside_word p' r' \<Longrightarrow> k (p', r', c') = k' (p', r', c')"
  shows "(\<And>p' r'. length r' \<le> length rest \<Longrightarrow> k (p', r', caps) \<noteq> None) \<Longrightarrow>
         rep_greedy p 0 k prev rest caps = rep_greedy p 0 k' prev rest caps
         \<and> rep_greedy p 0 k prev rest caps \<noteq> None"
proof (induction rest arbitrary: prev)
  case Nil
  have "k (prev, [], caps) = k' (prev, [], caps)"
    by (rule agree) (simp add: inside_word_def)
  moreover have "k (prev, [], caps) \<noteq> None" by (rule Nil) simp
  ultimately show ?case by simp
next
  case (Cons x xs)
  show ?case
  proof (cases "p x")
    case True
    have "rep_greedy p 0 k (Some x) xs caps = rep_greedy p 0 k' (Some x) xs caps
        \<and> rep_greedy p 0 k (Some x) xs caps \<noteq> None"
      by (rule Cons.IH) (simp add: Cons.prems)
    then show ?thesis using True by (auto split: option.splits)
  next
    case False
    then have "\<not> is_word x" by (rule pq)
    then have "k (prev, x # xs, caps) = k' (prev, x # xs, caps)"
      by (intro agree) (simp add: inside_word_def)
    moreover have "k (prev, x # xs, caps) \<noteq> None" by (rule Cons.prems) simp
    ultimately show ?thesis using False by simp
  qed
qed

lemma ends_whole_Seq:
  "ends_whole f (Seq a b) = (if b = Eps then ends_whole f a else ends_whole f b)"
  by (cases b) simp_all

lemma ends_whole_Rep: "ends_whole f (Rep cl n greedy) \<Longrightarrow> cl = Space \<and> 0 < n"
  by (cases cl; cases n) simp_all

lemma ends_whole_Grp:
  assumes "ends_whole f (Grp i a)"
  shows "a = Rep Word (Suc 0) True \<or> (a = Rep Any_char (Suc 0) True \<and> \<not> dotall f)"
  using assms by (auto elim!: ends_whole.elims)

text \<open>
  A pattern that cannot end inside a word hands over to its continuation only at
  positions outside a word, provided the continuation accepts every position further on.
\<close>

lemma m_ends:
  "ends_whole f rx \<Longrightarrow>
   (\<And>p' r' c'. \<not> inside_word p' r' \<Longrightarrow> k (p', r', c') = k' (p', r', c')) \<Longrightarrow>
   (\<And>p' r' c'. length r' < length r \<Longrightarrow> k (p', r', c') \<noteq> None) \<Longrightarrow>
   m rx f k (p, r, c) = m rx f k' (p, r, c)"
proof (induction rx arbitrary: k k' p r c)
  case (Chr cl)
  show ?case
  proof (cases r)
    case Nil
    then show ?thesis by simp
  next
    case (Cons x xs)
    have "k (Some x, xs, c) = k' (Some x, xs, c)" if "cmatch f cl x"
    proof (rule Chr.prems(2))
      have "\<not> is_word x"
      proof (cases cl)
        case (Lit ch)
        with Chr.prems(1) that show ?thesis by (auto dest: lit_nonword)
      next
        case Space
        with that show ?thesis by (simp add: space_not_word)
      qed (use Chr.prems(1) in simp_all)
      then show "\<not> inside_word (Some x) xs" by (simp add: inside_word_def)
    qed
    then show ?thesis using Cons by simp
  qed
next
  case (Rep cl n greedy)
  from Rep.prems(1) have cl: "cl = Space" and n: "0 < n" by (auto dest: ends_whole_Rep)
  have pq: "\<not> is_word x" if "cmatch f cl x" for x
    using that cl by (simp add: space_not_word)
  have "rep_greedy (cmatch f cl) n k p r c = rep_greedy (cmatch f cl) n k' p r c"
    by (rule rep_greedy_nonword [where p = "cmatch f cl" and k = k and k' = k', OF pq Rep.prems(2)])
       (simp_all add: n)
  moreover have "rep_lazy (cmatch f cl) n k p r c = rep_lazy (cmatch f cl) n k' p r c"
    by (rule rep_lazy_nonword [where p = "cmatch f cl" and k = k and k' = k', OF pq Rep.prems(2)])
       (simp_all add: n)
  ultimately show ?case by simp
next
  case Bnd
  have "k (p, r, c) = k' (p, r, c)" if "at_boundary (p, r, c)"
    using that by (intro Bnd.prems(2) boundary_outside)
  then show ?case by (simp del: at_boundary.simps)
next
  case Eol
  then show ?case by simp
next
  case Eps
  then show ?case by simp
next
  case (Seq a b)
  show ?case
  proof (cases "b = Eps")
    case True
    with Seq.prems(1) have "ends_whole f a" by (simp add: ends_whole_Seq)
    then have "m a f k (p, r, c) = m a f k' (p, r, c)"
      using Seq.prems(2) Seq.prems(3) by (rule Seq.IH(1))
    with True show ?thesis by simp
  next
    case False
    with Seq.prems(1) have b: "ends_whole f b" by (simp add: ends_whole_Seq)
    have "m b f k (p1, r1, c1) = m b f k' (p1, r1, c1)"
      if "length r1 \<le> length r" for p1 r1 c1
      using b Seq.prems(2)
    proof (rule Seq.IH(2))
      fix p2 :: "char option" and r2 :: string and c2 :: "(nat \<times> string) list"
      assume "length r2 < length r1"
      with that have "length r2 < length r" by simp
      then show "k (p2, r2, c2) \<noteq> None" by (rule Seq.prems(3))
    qed
    then have "m a f (m b f k) (p, r, c) = m a f (m b f k') (p, r, c)"
      by (rule m_cong_len)
    then show ?thesis by simp
  qed
next
  case (Alt a b)
  then show ?case by simp
next
  case (Grp i a)
  from Grp.prems(1) obtain cl where a: "a = Rep cl (Suc 0) True"
    and cl: "cl = Word \<or> (cl = Any_char \<and> \<not> dotall f)"
    by (auto dest: ends_whole_Grp)
  have pq: "\<not> is_word y" if "\<not> cmatch f cl y" for y
    using that cl by (auto simp: newline_not_word)
  let ?k = "\<lambda>(p1, r1, c1). k (p1, r1, (i, take (length r - length r1) r) # c1)"
  let ?k' = "\<lambda>(p1, r1, c1). k' (p1, r1, (i, take (length r - length r1) r) # c1)"
  have agree: "?k (p', r', c') = ?k' (p', r', c')" if "\<not> inside_word p' r'" for p' r' c'
    using Grp.prems(2) [OF that] by simp
  show ?case
  proof (cases r)
    case Nil
    then show ?thesis by (simp add: a)
  next
    case (Cons x xs)
    have total: "?k (p', r', c) \<noteq> None" if "length r' \<le> length xs" for p' r'
    proof -
      from that Cons have "length r' < length r" by simp
      then show ?thesis using Grp.prems(3) by simp
    qed
    have "rep_greedy (cmatch f cl) 0 ?k (Some x) xs c = rep_greedy (cmatch f cl) 0 ?k' (Some x) xs c
        \<and> rep_greedy (cmatch f cl) 0 ?k (Some x) xs c \<noteq> None"
      using pq agree total by (rule rep_greedy_run)
    then show ?thesis using Cons by (auto simp: a split: option.splits)
  qed
next
  case (Look a)
  then show ?case by simp
qed

lemma rep_greedy_first:
  "rep_greedy p (Suc n) k prev rest caps \<noteq> None \<Longrightarrow> \<exists>x xs. rest = x # xs \<and> p x"
  by (cases rest) (auto split: if_splits)

lemma rep_lazy_first:
  "rep_lazy p (Suc n) k prev rest caps \<noteq> None \<Longrightarrow> \<exists>x xs. rest = x # xs \<and> p x"
  by (cases rest) (auto split: if_splits)

text \<open>A pattern that cannot start inside a word matches only at positions outside a word.\<close>

lemma m_starts:
  "starts_whole rx \<Longrightarrow> m rx f k (p, r, c) \<noteq> None \<Longrightarrow> \<not> inside_word p r"
proof (induction rx arbitrary: k)
  case (Chr cl)
  from Chr.prems(2) obtain x xs where r: "r = x # xs" and cm: "cmatch f cl x"
    by (cases r) (auto split: if_splits)
  have "\<not> is_word x"
  proof (cases cl)
    case (Lit ch)
    with Chr.prems(1) cm show ?thesis by (auto dest: lit_nonword)
  next
    case Space
    with cm show ?thesis by (simp add: space_not_word)
  qed (use Chr.prems(1) in simp_all)
  with r show ?case by (simp add: inside_word_def)
next
  case (Rep cl n greedy)
  from Rep.prems(1) obtain n' where cl: "cl = Space" and n: "n = Suc n'"
    by (cases cl; cases n) simp_all
  have "\<exists>x xs. r = x # xs \<and> cmatch f cl x"
  proof (cases greedy)
    case True
    with Rep.prems(2) n have "rep_greedy (cmatch f cl) (Suc n') k p r c \<noteq> None" by simp
    then show ?thesis by (rule rep_greedy_first)
  next
    case False
    with Rep.prems(2) n have "rep_lazy (cmatch f cl) (Suc n') k p r c \<noteq> None" by simp
    then show ?thesis by (rule rep_lazy_first)
  qed
  with cl show ?case by (auto simp: inside_word_def space_not_word)
next
  case Bnd
  from Bnd.prems(2) have "at_boundary (p, r, c)"
    by (simp del: at_boundary.simps split: if_splits)
  then show ?case by (rule boundary_outside)
next
  case (Seq a b)
  from Seq.prems(2) have "m a f (m b f k) (p, r, c) \<noteq> None" by simp
  with Seq.prems(1) show ?case by (intro Seq.IH(1)) simp_all
qed simp_all

subsection \<open>Matches of one rule\<close>

lemma match_here_Some:
  "match_here rx f ma prev s = Some (n, caps) \<longleftrightarrow>
     (\<exists>p' r'. m rx f (\<lambda>(p1, r1, c1). if ma \<and> length r1 = length s then None else Some (p1, r1, c1))
                 (prev, s, []) = Some (p', r', caps)
              \<and> n = length s - length r')"
  by (auto simp: match_here_def split: option.splits)

lemma match_starts_whole:
  assumes "starts_whole rx" and "match_here rx f ma prev s = Some res"
  shows "\<not> inside_word prev s"
proof -
  let ?k = "\<lambda>(p1, r1, c1). if ma \<and> length r1 = length s then None else Some (p1, r1, c1)"
  from assms(2) have "m rx f ?k (prev, s, []) \<noteq> None"
    by (auto simp: match_here_def split: option.splits)
  with assms(1) show ?thesis by (rule m_starts)
qed

lemma match_ends_whole:
  assumes "ends_whole f rx" and "match_here rx f ma prev s = Some (n, caps)"
  shows "\<not> inside_word (char_before prev s n) (drop n s)"
proof -
  let ?k = "\<lambda>(p1, r1, c1). if ma \<and> length r1 = length s then None else Some (p1, r1, c1)"
  let ?k' = "\<lambda>(p1, r1, c1). if inside_word p1 r1 then None else ?k (p1, r1, c1)"
  from assms(2) obtain p' r' where res: "m rx f ?k (prev, s, []) = Some (p', r', caps)"
    and n: "n = length s - length r'"
    by (auto simp: match_here_Some)
  have "m rx f ?k (prev, s, []) = m rx f ?k' (prev, s, [])"
    using assms(1) by (rule m_ends) simp_all
  with res have res': "m rx f ?k' (prev, s, []) = Some (p', r', caps)" by simp
  have start: "position_of prev s (prev, s, [])" by (simp add: char_before_def)
  from start res' show ?thesis
  proof (rule m_position)
    fix st'
    assume pos: "position_of prev s st'" and k: "?k' st' = Some (p', r', caps)"
    obtain p1 r1 c1 where st': "st' = (p1, r1, c1)" by (cases st')
    from k st' have "\<not> inside_word p1 r1" and "(p1, r1, c1) = (p', r', caps)"
      by (auto split: if_splits)
    with pos st' n show ?thesis by auto
  qed
qed


subsection \<open>The rule tables\<close>

lemma vb_rules_whole:
  "\<forall>(pat, tpl) \<in> set vb_replacements. starts_whole pat \<and> ends_whole no_flags pat"
  by (simp add: vb_replacements_def seqs_def lit_def spaces1_def word_grp_def no_flags_def
      char_facts)

lemma vbnet_rules_start: "\<forall>(pat, tpl) \<in> set vbnet_conversions. starts_whole pat"
  by (simp add: vbnet_conversions_def seqs_def lit_def spaces1_def char_facts)

lemma vbnet_rules_end:
  "map fst (filter (\<lambda>(pat, tpl). \<not> ends_whole vbnet_flags pat) vbnet_conversions)
     = [if_then_pattern, elseif_pattern]"
  by (simp add: vbnet_conversions_def if_then_pattern_def elseif_pattern_def seqs_def lit_def
      spaces1_def word_grp_def any_grp_def vbnet_flags_def char_facts)

lemma vbnet_rule_ends:
  assumes "(pat, tpl) \<in> set vbnet_conversions"
    and "pat \<noteq> if_then_pattern" and "pat \<noteq> elseif_pattern"
  shows "ends_whole vbnet_flags pat"
proof (rule ccontr)
  assume "\<not> ends_whole vbnet_flags pat"
  with assms(1) have "pat \<in> set (map fst (filter (\<lambda>(pat, tpl). \<not> ends_whole vbnet_flags pat)
      vbnet_conversions))"
    by force
  with assms(2,3) show False by (simp add: vbnet_rules_end)
qed

subsection \<open>Matching on the three rule sets\<close>

lemma csharp_print: "transpile_csharp_to_vbnet ''print x'' = ''prDim x As Integer''"
  by (simp add: transpile_csharp_to_vbnet_def csharp_conversions_def csharp_flags_def
      class_head_def class_end_def class_end_flags_def no_flags_def line_step_def strip_def
      engine_defs char_facts)

lemma vbnet_elseif: "transpile_vbnet_to_csharp ''ElseIfCount'' = ''} } else { ifCount''"
  by (simp add: transpile_vbnet_to_csharp_def vbnet_conversions_def vbnet_flags_def engine_defs
      char_facts)

lemma vb_dim_spaced: "transpile_vb_to_vbnet ''Dim  x  As  Integer'' = ''Dim x As Integer''"
  by (simp add: transpile_vb_to_vbnet_def vb_replacements_def no_flags_def engine_defs char_facts)

lemma vb_dim_lower_case: "transpile_vb_to_vbnet ''dim  x  as  integer'' = ''dim  x  as  integer''"
  by (simp add: transpile_vb_to_vbnet_def vb_replacements_def no_flags_def engine_defs char_facts)

lemma vbnet_end_class_upper: "transpile_vbnet_to_csharp ''END CLASS'' = ''}''"
  by (simp add: transpile_vbnet_to_csharp_def vbnet_conversions_def vbnet_flags_def engine_defs
      char_facts)

lemma end_class_after_space:
  "match_here (seqs [Bnd, lit ''End Class'', Bnd]) vbnet_flags False (Some CHR '' '') ''end class;''
     = Some (9, [])"
  by (simp add: vbnet_flags_def engine_defs char_facts)

lemma if_then_inside_word:
  "match_here if_then_pattern vbnet_flags False None ''If a Thenx'' = Some (9, [(1, ''a'')])
   \<and> inside_word (char_before None ''If a Thenx'' 9) (drop 9 ''If a Thenx'')"
  by (simp add: if_then_pattern_def vbnet_flags_def engine_defs inside_word_def char_before_def
      char_facts)

text \<open>
  C3, as amended. The modernized to C-family rules match without regard to the case of
  the letters \<open>A\<close> to \<open>Z\<close>: two texts that are equal once these letters are put in lower
  case are rewritten to texts that are equal once these letters are put in lower case. No
  match of a legacy to modernized rule or of a modernized to C-family rule begins inside
  a word; and, the two modernized to C-family patterns \<open>\bIf (.+) Then\<close> and
  \<open>\bElseIf\<close> apart, no match of such a rule ends inside a word: these rules rewrite
  whole words only. Nothing of the kind holds of the C-family to modernized rules, and the
  legacy to modernized rules tell letter case apart.
\<close>

theorem rules_ignore_case_and_keep_words:
  "(fold_text s = fold_text s' \<longrightarrow>
      fold_text (transpile_vbnet_to_csharp s) = fold_text (transpile_vbnet_to_csharp s'))
   \<and> (\<forall>(pat, tpl) \<in> set vb_replacements. \<forall>ma prev subject n caps.
         match_here pat no_flags ma prev subject = Some (n, caps) \<longrightarrow>
           \<not> inside_word prev subject
           \<and> \<not> inside_word (char_before prev subject n) (drop n subject))
   \<and> (\<forall>(pat, tpl) \<in> set vbnet_conversions. \<forall>ma prev subject n caps.
         match_here pat vbnet_flags ma prev subject = Some (n, caps) \<longrightarrow>
           \<not> inside_word prev subject
           \<and> (pat \<noteq> if_then_pattern \<and> pat \<noteq> elseif_pattern \<longrightarrow>
                \<not> inside_word (char_before prev subject n) (drop n subject)))"
proof -
  have "ignorecase vbnet_flags" by (simp add: vbnet_flags_def)
  then have a: "fold_text (transpile_vbnet_to_csharp s) = fold_text (transpile_vbnet_to_csharp s')"
    if "fold_text s = fold_text s'"
    unfolding transpile_vbnet_to_csharp_def using that by (rule apply_rules_blind)
  have b: "\<not> inside_word prev subject
           \<and> \<not> inside_word (char_before prev subject n) (drop n subject)"
    if "(pat, tpl) \<in> set vb_replacements" "match_here pat no_flags ma prev subject = Some (n, caps)"
    for pat tpl ma prev subject n caps
  proof -
    from vb_rules_whole that(1) have "starts_whole pat" "ends_whole no_flags pat" by auto
    with that(2) show ?thesis by (auto dest: match_starts_whole match_ends_whole)
  qed
  have c: "\<not> inside_word prev subject
           \<and> (pat \<noteq> if_then_pattern \<and> pat \<noteq> elseif_pattern \<longrightarrow>
                \<not> inside_word (char_before prev subject n) (drop n subject))"
    if "(pat, tpl) \<in> set vbnet_conversions"
      "match_here pat vbnet_flags ma prev subject = Some (n, caps)"
    for pat tpl ma prev subject n caps
  proof -
    from vbnet_rules_start that(1) have "starts_whole pat" by auto
    then have "\<not> inside_word prev subject" using that(2) by (rule match_starts_whole)
    moreover have "\<not> inside_word (char_before prev subject n) (drop n subject)"
      if "pat \<noteq> if_then_pattern" "pat \<noteq> elseif_pattern"
    proof -
      have "ends_whole vbnet_flags pat"
        using \<open>(pat, tpl) \<in> set vbnet_conversions\<close> that by (rule vbnet_rule_ends)
      then show ?thesis
        using \<open>match_here pat vbnet_flags ma prev subject = Some (n, caps)\<close>
        by (rule match_ends_whole)
    qed
    ultimately show ?thesis by blast
  qed
  from a b c show ?thesis by blast
qed

theorem rules_ignore_case_and_keep_words_witness:
  "fold_text ''END CLASS'' = fold_text ''End Class''
   \<and> fold_text (transpile_vbnet_to_csharp ''END CLASS'')
       = fold_text (transpile_vbnet_to_csharp ''End Class'')
   \<and> transpile_vbnet_to_csharp ''END CLASS'' = ''}''
   \<and> match_here (seqs [Bnd, lit ''End Class'', Bnd]) vbnet_flags False (Some CHR '' '') ''end class;''
       = Some (9, [])
   \<and> \<not> inside_word (Some CHR '' '') ''end class;''
   \<and> \<not> inside_word (char_before (Some CHR '' '') ''end class;'' 9) (drop 9 ''end class;'')"
proof -
  let ?pat = "seqs [Bnd, lit ''End Class'', Bnd]"
  have h: "fold_text ''END CLASS'' = fold_text ''End Class''"
    by (simp add: fold_text_def fold_char_def code_point_def char_facts)
  have r: "(?pat, [TLit ''}'']) \<in> set vbnet_conversions"
    by (simp add: vbnet_conversions_def)
  have n: "?pat \<noteq> if_then_pattern" "?pat \<noteq> elseif_pattern"
    by (simp_all add: if_then_pattern_def elseif_pattern_def seqs_def lit_def)
  from rules_ignore_case_and_keep_words [of "''END CLASS''" "''End Class''"] h
  have "fold_text (transpile_vbnet_to_csharp ''END CLASS'')
      = fold_text (transpile_vbnet_to_csharp ''End Class'')"
    by blast
  moreover from rules_ignore_case_and_keep_words [of "''END CLASS''" "''End Class''"] r n
    end_class_after_space
  have "\<not> inside_word (Some CHR '' '') ''end class;''
      \<and> \<not> inside_word (char_before (Some CHR '' '') ''end class;'' 9) (drop 9 ''end class;'')"
    by blast
  ultimately show ?thesis
    using h end_class_after_space vbnet_end_class_upper by blast
qed

text \<open>
  C3 as stated fails: the C-family to modernized rules have no word boundary and rewrite
  \<open>int x\<close> inside \<open>print x\<close>; the modernized to C-family rule for \<open>ElseIf\<close> rewrites the
  head of the identifier \<open>ElseIfCount\<close>; and the legacy to modernized rules match
  \<open>Dim\<close> but not \<open>dim\<close>.
\<close>

theorem rules_rewrite_inside_identifiers:
  "transpile_csharp_to_vbnet ''print x'' = ''prDim x As Integer''
   \<and> transpile_vbnet_to_csharp ''ElseIfCount'' = ''} } else { ifCount''
   \<and> transpile_vb_to_vbnet ''Dim  x  As  Integer'' = ''Dim x As Integer''
   \<and> transpile_vb_to_vbnet ''dim  x  as  integer'' = ''dim  x  as  integer''"
  using csharp_print vbnet_elseif vb_dim_spaced vb_dim_lower_case by blast

end
